theory Spec2Isabelle
  imports Main "HOL-Library.List_Lexorder" "HOL-Library.Multiset"
begin

section \<open>Strings\<close>

text \<open>
  A Python \<open>str\<close> is the list of its code points, and a code point is an integer.
  \<open>ustr\<close> gives the string of a literal of the source, which is ASCII.
\<close>

type_synonym codepoint = int
type_synonym str = "codepoint list"

definition cp :: "char \<Rightarrow> codepoint" where
  "cp c = of_char c"

definition ustr :: "string \<Rightarrow> str" where
  "ustr s = map cp s"

text \<open>
  \<open>str.isspace()\<close> on one code point, which is also what \<open>str.strip()\<close>,
  \<open>str.split()\<close> and the category \<open>\s\<close> of \<open>re\<close> test: the white space of Unicode
  (\<open>U+0009\<close> to \<open>U+000D\<close>, \<open>U+001C\<close> to \<open>U+0020\<close>, \<open>U+0085\<close>, \<open>U+00A0\<close>,
  \<open>U+1680\<close>, \<open>U+2000\<close> to \<open>U+200A\<close>, \<open>U+2028\<close>, \<open>U+2029\<close>, \<open>U+202F\<close>,
  \<open>U+205F\<close>, \<open>U+3000\<close>).
\<close>

definition isspace :: "codepoint \<Rightarrow> bool" where
  "isspace c =
     ((0x09 \<le> c \<and> c \<le> 0x0D) \<or> (0x1C \<le> c \<and> c \<le> 0x20) \<or> c = 0x85 \<or> c = 0xA0
      \<or> c = 0x1680 \<or> (0x2000 \<le> c \<and> c \<le> 0x200A) \<or> c = 0x2028 \<or> c = 0x2029
      \<or> c = 0x202F \<or> c = 0x205F \<or> c = 0x3000)"

text \<open>\<open>str.strip()\<close> with no argument\<close>

definition str_strip :: "str \<Rightarrow> str" where
  "str_strip s = rev (dropWhile isspace (rev (dropWhile isspace s)))"

text \<open>\<open>sep.join(xs)\<close>\<close>

fun str_join :: "str \<Rightarrow> str list \<Rightarrow> str" where
  "str_join sep [] = []"
| "str_join sep [x] = x"
| "str_join sep (x # y # ys) = x @ sep @ str_join sep (y # ys)"

text \<open>Python's \<open>x or d\<close> where \<open>x\<close> is a string or \<open>None\<close>: the empty string and
  \<open>None\<close> are both false.\<close>

definition py_or :: "str option \<Rightarrow> str \<Rightarrow> str" where
  "py_or x d = (case x of None \<Rightarrow> d | Some s \<Rightarrow> if s = [] then d else s)"

section \<open>What the model takes from the standard library as data\<close>

text \<open>
  The case mappings of the Unicode database and the word separator of \<open>textwrap\<close> are
  not part of the repository; they are the fields of a parameter \<open>lib\<close>:
  \<^item> \<open>tolower\<close> and \<open>toupper\<close> are the lower-case and upper-case mappings of one code
    point to one code point, as \<open>re\<close> uses them (\<open>_sre.unicode_tolower\<close>);
  \<^item> \<open>final_sigma s i\<close> says that the capital sigma at the position \<open>i\<close> of \<open>s\<close> ends
    a word, the one context that \<open>str.lower()\<close> looks at;
  \<^item> \<open>wordsep\<close> is \<open>wordsep_re.split\<close> of \<open>textwrap\<close>.
\<close>

record lib =
  tolower :: "codepoint \<Rightarrow> codepoint"
  toupper :: "codepoint \<Rightarrow> codepoint"
  final_sigma :: "str \<Rightarrow> nat \<Rightarrow> bool"
  wordsep :: "str \<Rightarrow> str list"

text \<open>
  \<open>str.lower()\<close> lowers each code point by the lower-case mapping, but for two code
  points: the capital I with a dot above, \<open>U+0130\<close>, becomes the two code points \<open>i\<close>
  and \<open>U+0307\<close>, and the capital sigma, \<open>U+03A3\<close>, becomes the final sigma \<open>U+03C2\<close>
  at the end of a word and the sigma \<open>U+03C3\<close> elsewhere.
\<close>

definition lower_at :: "lib \<Rightarrow> str \<Rightarrow> nat \<Rightarrow> str" where
  "lower_at l s i =
     (let c = s ! i
      in if c = 0x03A3 then [if final_sigma l s i then 0x03C2 else 0x03C3]
         else if c = 0x0130 then [0x69, 0x0307]
         else [tolower l c])"

definition str_lower :: "lib \<Rightarrow> str \<Rightarrow> str" where
  "str_lower l s = concat (map (lower_at l s) [0 ..< length s])"

section \<open>Regular expressions\<close>

text \<open>
  The three patterns of \<open>fetcher.py\<close> use literals, character sets, the category \<open>\s\<close>,
  \<open>?\<close>, \<open>+\<close>, \<open>{2,}\<close> on a character set, concatenation and alternation. A pattern
  is written as \<open>re\<close> compiles it: \<open>Lit\<close> is a literal of a pattern compiled with no
  flag, \<open>LitI\<close> a literal of a pattern compiled with \<open>re.IGNORECASE\<close>, \<open>Set\<close> and
  \<open>Many\<close> a character set and its repetition in a pattern compiled with no flag, and
  \<open>Space\<close> the category \<open>\s\<close>.
\<close>

datatype cls = Range codepoint codepoint | Single codepoint

datatype regex =
    Eps
  | Lit codepoint
  | LitI codepoint
  | Set "cls list"
  | Many nat "cls list"
  | Space
  | Opt regex
  | Seq regex regex
  | Alt regex regex

fun in_cls1 :: "cls \<Rightarrow> codepoint \<Rightarrow> bool" where
  "in_cls1 (Range lo hi) x = (lo \<le> x \<and> x \<le> hi)"
| "in_cls1 (Single c) x = (x = c)"

definition in_cls :: "cls list \<Rightarrow> codepoint \<Rightarrow> bool" where
  "in_cls cs x = list_ex (\<lambda>c. in_cls1 c x) cs"

text \<open>
  A literal under \<open>re.IGNORECASE\<close>, as \<open>_compile\<close> of \<open>re\<close> treats it. A literal
  that has no case is compared as it is. Otherwise the code point read is lowered and
  compared with the lowered literal, or, when \<open>_EXTRA_CASES\<close> lists other lower-case code
  points with the same upper case (the dotless i for \<open>i\<close>, the long s for \<open>s\<close>), looked
  up among the lowered literal and these.
\<close>

definition iscased :: "lib \<Rightarrow> codepoint \<Rightarrow> bool" where
  "iscased l c = (c \<noteq> tolower l c \<or> c \<noteq> toupper l c)"

definition EXTRA_CASES :: "(codepoint \<times> codepoint list) list" where
  "EXTRA_CASES =
     [(0x0069, [0x0131]), (0x0073, [0x017F]), (0x00B5, [0x03BC]), (0x0131, [0x0069]),
      (0x017F, [0x0073]), (0x0345, [0x03B9, 0x1FBE]), (0x0390, [0x1FD3]), (0x03B0, [0x1FE3]),
      (0x03B2, [0x03D0]), (0x03B5, [0x03F5]), (0x03B8, [0x03D1]), (0x03B9, [0x0345, 0x1FBE]),
      (0x03BA, [0x03F0]), (0x03BC, [0x00B5]), (0x03C0, [0x03D6]), (0x03C1, [0x03F1]),
      (0x03C2, [0x03C3]), (0x03C3, [0x03C2]), (0x03C6, [0x03D5]), (0x03D0, [0x03B2]),
      (0x03D1, [0x03B8]), (0x03D5, [0x03C6]), (0x03D6, [0x03C0]), (0x03F0, [0x03BA]),
      (0x03F1, [0x03C1]), (0x03F5, [0x03B5]), (0x0432, [0x1C80]), (0x0434, [0x1C81]),
      (0x043E, [0x1C82]), (0x0441, [0x1C83]), (0x0442, [0x1C84, 0x1C85]), (0x044A, [0x1C86]),
      (0x0463, [0x1C87]), (0x1C80, [0x0432]), (0x1C81, [0x0434]), (0x1C82, [0x043E]),
      (0x1C83, [0x0441]), (0x1C84, [0x0442, 0x1C85]), (0x1C85, [0x0442, 0x1C84]),
      (0x1C86, [0x044A]), (0x1C87, [0x0463]), (0x1C88, [0xA64B]), (0x1E61, [0x1E9B]),
      (0x1E9B, [0x1E61]), (0x1FBE, [0x0345, 0x03B9]), (0x1FD3, [0x0390]), (0x1FE3, [0x03B0]),
      (0xA64B, [0x1C88]), (0xFB05, [0xFB06]), (0xFB06, [0xFB05])]"

definition lit_i :: "lib \<Rightarrow> codepoint \<Rightarrow> codepoint \<Rightarrow> bool" where
  "lit_i l av ch =
     (if \<not> iscased l av then ch = av
      else
        (let lo = tolower l av
         in case map_of EXTRA_CASES lo of
              None \<Rightarrow> tolower l ch = lo
            | Some ks \<Rightarrow> tolower l ch \<in> set (lo # ks)))"

text \<open>
  \<open>rmatch\<close> is the backtracking matcher of \<open>re\<close> on these patterns: it returns what is
  left of the input after each way of matching the pattern at the start of the input, in
  the order in which \<open>re\<close> tries them (earlier alternative first, greedy repetition
  longest first).
\<close>

fun one :: "(codepoint \<Rightarrow> bool) \<Rightarrow> str \<Rightarrow> str list" where
  "one p [] = []"
| "one p (x # xs) = (if p x then [xs] else [])"

fun rmatch :: "lib \<Rightarrow> regex \<Rightarrow> str \<Rightarrow> str list" where
  "rmatch l Eps s = [s]"
| "rmatch l (Lit c) s = one (\<lambda>x. x = c) s"
| "rmatch l (LitI c) s = one (lit_i l c) s"
| "rmatch l (Set cs) s = one (in_cls cs) s"
| "rmatch l (Many n cs) s =
     (let k = length (takeWhile (in_cls cs) s) in map (\<lambda>j. drop j s) (rev [n ..< Suc k]))"
| "rmatch l Space s = one isspace s"
| "rmatch l (Opt r) s = rmatch l r s @ [s]"
| "rmatch l (Seq r1 r2) s = concat (map (rmatch l r2) (rmatch l r1 s))"
| "rmatch l (Alt r1 r2) s = rmatch l r1 s @ rmatch l r2 s"

text \<open>\<open>pattern.search(s)\<close>: the leftmost start at which the pattern matches, and there
  the first match in backtracking order; the result is \<open>m.group(0)\<close>.\<close>

fun search :: "lib \<Rightarrow> regex \<Rightarrow> str \<Rightarrow> str option" where
  "search l r [] = (case rmatch l r [] of [] \<Rightarrow> None | rest # _ \<Rightarrow> Some [])"
| "search l r (c # cs) =
     (case rmatch l r (c # cs) of
        [] \<Rightarrow> search l r cs
      | rest # _ \<Rightarrow> Some (take (length (c # cs) - length rest) (c # cs)))"

text \<open>A literal word of a pattern compiled with \<open>re.IGNORECASE\<close>, an alternation and a
  concatenation of several patterns.\<close>

fun litI :: "string \<Rightarrow> regex" where
  "litI [] = Eps"
| "litI [c] = LitI (cp c)"
| "litI (c # cs) = Seq (LitI (cp c)) (litI cs)"

fun alts :: "regex list \<Rightarrow> regex" where
  "alts [] = Eps"
| "alts [r] = r"
| "alts (r # rs) = Alt r (alts rs)"

fun seqs :: "regex list \<Rightarrow> regex" where
  "seqs [] = Eps"
| "seqs [r] = r"
| "seqs (r # rs) = Seq r (seqs rs)"

section \<open>Constants of \<open>fetcher.py\<close>\<close>

definition BATCH_SIZE :: nat where
  "BATCH_SIZE = 200"

text \<open>
  \<open>COMPANY_KEYWORDS\<close>, compiled with \<open>re.I | re.X\<close>: the white space of the verbose
  pattern is dropped, which leaves
  \<^verbatim>\<open>pharm|biotech|inc\.?|ltd\.?|llc|gmbh|corp|corporation|s\.?a\.?|plc|k\.?k\.?|co\.?\s?ltd\<close>.
\<close>

definition dot_opt :: regex where
  "dot_opt = Opt (LitI (cp CHR ''.''))"

definition COMPANY_KEYWORDS :: regex where
  "COMPANY_KEYWORDS = alts
     [litI ''pharm'', litI ''biotech'', Seq (litI ''inc'') dot_opt, Seq (litI ''ltd'') dot_opt,
      litI ''llc'', litI ''gmbh'', litI ''corp'', litI ''corporation'',
      seqs [litI ''s'', dot_opt, litI ''a'', dot_opt], litI ''plc'',
      seqs [litI ''k'', dot_opt, litI ''k'', dot_opt],
      seqs [litI ''co'', dot_opt, Opt Space, litI ''ltd'']]"

text \<open>
  \<open>ACADEMIC_KEYWORDS\<close>, compiled with \<open>re.I | re.X\<close>:
  \<^verbatim>\<open>univ|universit|college|academy|school|hospital|centre|center|institut|facult|dept|department\<close>.
\<close>

definition ACADEMIC_KEYWORDS :: regex where
  "ACADEMIC_KEYWORDS = alts
     [litI ''univ'', litI ''universit'', litI ''college'', litI ''academy'', litI ''school'',
      litI ''hospital'', litI ''centre'', litI ''center'', litI ''institut'', litI ''facult'',
      litI ''dept'', litI ''department'']"

text \<open>\<open>EMAIL_RE\<close>, compiled with no flag:
  \<^verbatim>\<open>[A-Za-z0-9._%+-]+@[A-Za-z0-9.-]+\.[A-Za-z]{2,}\<close>.\<close>

definition alnum :: "cls list" where
  "alnum = [Range (cp CHR ''A'') (cp CHR ''Z''), Range (cp CHR ''a'') (cp CHR ''z''),
            Range (cp CHR ''0'') (cp CHR ''9'')]"

definition EMAIL_RE :: regex where
  "EMAIL_RE = seqs
     [Many 1 (alnum @ [Single (cp CHR ''.''), Single (cp CHR ''_''), Single (cp CHR ''%''),
                       Single (cp CHR ''+''), Single (cp CHR ''-'')]),
      Lit (cp CHR ''@''),
      Many 1 (alnum @ [Single (cp CHR ''.''), Single (cp CHR ''-'')]),
      Lit (cp CHR ''.''),
      Many 2 [Range (cp CHR ''A'') (cp CHR ''Z''), Range (cp CHR ''a'') (cp CHR ''z'')]]"

section \<open>Parsing helpers\<close>

text \<open>\<open>is_company_affil\<close>: \<open>True\<close> is the classification "company", \<open>False\<close> is
  "other".\<close>

definition is_company_affil :: "lib \<Rightarrow> str \<Rightarrow> bool" where
  "is_company_affil l affil =
     (let affil_lc = str_lower l affil
      in search l COMPANY_KEYWORDS affil_lc \<noteq> None \<and> \<not> (search l ACADEMIC_KEYWORDS affil_lc \<noteq> None))"

definition first_email :: "lib \<Rightarrow> str \<Rightarrow> str option" where
  "first_email l txt = search l EMAIL_RE txt"

section \<open>Errors\<close>

text \<open>
  The exceptions that the code can raise: \<open>requests\<close> raises on a failed exchange and
  \<open>raise_for_status\<close> on a status that is not a success, decoding the search response
  raises when it has not the expected shape, \<open>etree.fromstring\<close> raises on a document
  that is not well formed, and \<open>textwrap\<close> raises \<open>ValueError\<close> on a width it cannot
  serve.
\<close>

datatype error =
    RequestException string
  | HTTPError nat
  | ResponseFormatError string
  | XMLSyntaxError string
  | ValueError string

section \<open>\<open>textwrap.shorten\<close>\<close>

text \<open>
  \<open>parse_articles\<close> cuts the title with \<open>textwrap.shorten(title, width=200)\<close> of the
  Python standard library, which is
  \<^verbatim>\<open>TextWrapper(width=width, max_lines=1).fill(' '.join(text.strip().split()))\<close>.
  The definitions below follow \<open>textwrap.py\<close> for a \<open>TextWrapper\<close> with
  \<open>max_lines = 1\<close> and every other attribute at its default (no indent, tabs expanded,
  white space replaced and dropped, long words broken, breaks on hyphens, placeholder
  \<open>' [...]'\<close>).
\<close>

text \<open>\<open>str.split()\<close> with no argument: the maximal runs of characters that are not
  white space.\<close>

fun split_aux :: "str \<Rightarrow> str \<Rightarrow> str list" where
  "split_aux w [] = (if w = [] then [] else [w])"
| "split_aux w (c # cs) =
     (if isspace c then (if w = [] then split_aux [] cs else w # split_aux [] cs)
      else split_aux (w @ [c]) cs)"

definition str_split :: "str \<Rightarrow> str list" where
  "str_split s = split_aux [] s"

definition collapse :: "str \<Rightarrow> str" where
  "collapse txt = str_join (ustr '' '') (str_split (str_strip txt))"

text \<open>\<open>str.expandtabs(tabsize)\<close>: the column starts again after a line feed or a carriage
  return.\<close>

fun expandtabs_aux :: "nat \<Rightarrow> nat \<Rightarrow> str \<Rightarrow> str" where
  "expandtabs_aux ts col [] = []"
| "expandtabs_aux ts col (c # cs) =
     (if c = 0x09 then
        (if 0 < ts then
           (let incr = ts - col mod ts in replicate incr 0x20 @ expandtabs_aux ts (col + incr) cs)
         else expandtabs_aux ts col cs)
      else if c = 0x0A \<or> c = 0x0D then c # expandtabs_aux ts 0 cs
      else c # expandtabs_aux ts (col + 1) cs)"

definition expandtabs :: "nat \<Rightarrow> str \<Rightarrow> str" where
  "expandtabs ts s = expandtabs_aux ts 0 s"

text \<open>\<open>textwrap._whitespace\<close>, the US-ASCII white space.\<close>

definition tw_whitespace :: "codepoint list" where
  "tw_whitespace = [0x09, 0x0A, 0x0B, 0x0C, 0x0D, 0x20]"

definition munge_whitespace :: "str \<Rightarrow> str" where
  "munge_whitespace txt =
     map (\<lambda>c. if c \<in> set tw_whitespace then 0x20 else c) (expandtabs 8 txt)"

text \<open>
  \<open>_split\<close> cuts the text with \<open>wordsep_re.split\<close> and drops the empty chunks. The
  regular expression (white space runs, hyphenated words, em-dashes, with look-behind) is not
  part of the repository; its \<open>split\<close> is the field \<open>wordsep\<close> of the parameter
  \<open>l\<close>.
\<close>

definition split_chunks :: "lib \<Rightarrow> str \<Rightarrow> str list" where
  "split_chunks l txt = filter (\<lambda>c. c \<noteq> []) (wordsep l (munge_whitespace txt))"

definition placeholder :: str where
  "placeholder = ustr '' [...]''"

text \<open>\<open>str.rfind('-', 0, stop)\<close>, \<open>None\<close> standing for \<open>-1\<close>.\<close>

definition rfind_hyphen :: "str \<Rightarrow> nat \<Rightarrow> nat option" where
  "rfind_hyphen chunk stop =
     (case filter (\<lambda>i. chunk ! i = 0x2D) (rev [0 ..< min stop (length chunk)]) of
        [] \<Rightarrow> None
      | i # _ \<Rightarrow> Some i)"

text \<open>
  \<open>_handle_long_word\<close>, called with a first chunk longer than the width: the length
  of the piece of the chunk that goes on the current line.
\<close>

definition long_word_end :: "str \<Rightarrow> nat \<Rightarrow> nat \<Rightarrow> nat" where
  "long_word_end chunk cur_len width =
     (let space_left = (if width < 1 then 1 else width - cur_len)
      in if space_left < length chunk then
           (case rfind_hyphen chunk space_left of
              None \<Rightarrow> space_left
            | Some hyphen \<Rightarrow>
                if 0 < hyphen \<and> list_ex (\<lambda>c. c \<noteq> 0x2D) (take hyphen chunk)
                then hyphen + 1 else space_left)
         else space_left)"

text \<open>The inner \<open>while chunks\<close> loop: chunks go on the current line while they fit.\<close>

fun take_fitting :: "nat \<Rightarrow> str list \<Rightarrow> str list \<Rightarrow> str list \<times> str list" where
  "take_fitting width cur_line [] = (cur_line, [])"
| "take_fitting width cur_line (c # chunks) =
     (if length (concat cur_line) + length c \<le> width
      then take_fitting width (cur_line @ [c]) chunks
      else (cur_line, c # chunks))"

text \<open>
  One pass of the outer loop up to the test \<open>if cur_line\<close>: the current line and the
  chunks that remain. \<open>started\<close> says that a line was stored already.
\<close>

definition wrap_line :: "nat \<Rightarrow> bool \<Rightarrow> str list \<Rightarrow> str list \<times> str list" where
  "wrap_line width started chunks =
     (let chunks1 = (if str_strip (hd chunks) = [] \<and> started then tl chunks else chunks);
          (cur_line, chunks2) = take_fitting width [] chunks1;
          (cur_line2, chunks3) =
            (if chunks2 \<noteq> [] \<and> width < length (hd chunks2) then
               (let e = long_word_end (hd chunks2) (length (concat cur_line)) width
                in (cur_line @ [take e (hd chunks2)], drop e (hd chunks2) # tl chunks2))
             else (cur_line, chunks2));
          cur_line3 =
            (if cur_line2 \<noteq> [] \<and> str_strip (last cur_line2) = [] then butlast cur_line2
             else cur_line2)
      in (cur_line3, chunks3))"

text \<open>The \<open>while cur_line\<close> loop that makes room for the placeholder; \<open>None\<close> when
  the line is used up (the \<open>else\<close> of the loop).\<close>

function add_placeholder :: "nat \<Rightarrow> str list \<Rightarrow> str option" where
  "add_placeholder width cur_line =
     (if cur_line = [] then None
      else if str_strip (last cur_line) \<noteq> [] \<and> length (concat cur_line) + length placeholder \<le> width
           then Some (concat (cur_line @ [placeholder]))
      else add_placeholder width (butlast cur_line))"
  by pat_completeness auto
termination
  by (relation "measure (\<lambda>(w, l). length l)") auto

declare add_placeholder.simps [simp del]

definition lstrip :: "str \<Rightarrow> str" where
  "lstrip s = dropWhile isspace s"

definition rstrip :: "str \<Rightarrow> str" where
  "rstrip s = rev (dropWhile isspace (rev s))"

definition chunks_size :: "str list \<Rightarrow> nat" where
  "chunks_size chunks = length (concat chunks) + length chunks"

lemma take_fitting_size:
  "take_fitting width cur chunks = (cur', rest) \<Longrightarrow> chunks_size rest \<le> chunks_size chunks"
proof (induction chunks arbitrary: cur)
  case Nil
  then show ?case by (simp add: chunks_size_def)
next
  case (Cons c chunks)
  show ?case
  proof (cases "length (concat cur) + length c \<le> width")
    case True
    with Cons.prems have "take_fitting width (cur @ [c]) chunks = (cur', rest)" by simp
    from Cons.IH [OF this] show ?thesis by (simp add: chunks_size_def)
  next
    case False
    with Cons.prems show ?thesis by simp
  qed
qed

lemma take_fitting_first:
  "take_fitting width [] (c # chunks) = (cur', rest) \<Longrightarrow> length c \<le> width \<Longrightarrow>
     chunks_size rest < chunks_size (c # chunks)"
  using take_fitting_size [of width "[c]" chunks cur' rest] by (simp add: chunks_size_def)

lemma take_fitting_stuck:
  "take_fitting width [] (c # chunks) = (cur', rest) \<Longrightarrow> width < length c \<Longrightarrow>
     cur' = [] \<and> rest = c # chunks"
  by simp

lemma long_word_end_pos: "0 < long_word_end chunk 0 width"
  by (simp add: long_word_end_def Let_def split: option.splits)

lemma wrap_line_decreases:
  assumes "chunks \<noteq> []" and "wrap_line width started chunks = (cur_line, rest)"
  shows "chunks_size rest < chunks_size chunks"
proof -
  define chunks1 where "chunks1 = (if str_strip (hd chunks) = [] \<and> started then tl chunks else chunks)"
  obtain cur chunks2 where tf: "take_fitting width [] chunks1 = (cur, chunks2)"
    by (cases "take_fitting width [] chunks1") auto
  define chunks3 where "chunks3 =
    (if chunks2 \<noteq> [] \<and> width < length (hd chunks2)
     then drop (long_word_end (hd chunks2) (length (concat cur)) width) (hd chunks2) # tl chunks2
     else chunks2)"
  have rest: "rest = chunks3"
    using assms(2) tf by (auto simp: wrap_line_def chunks1_def chunks3_def Let_def split: if_splits)
  have le32: "chunks_size chunks3 \<le> chunks_size chunks2"
    by (cases chunks2) (auto simp: chunks3_def chunks_size_def)
  have le21: "chunks_size chunks2 \<le> chunks_size chunks1"
    using take_fitting_size [OF tf] .
  show ?thesis
  proof (cases "chunks1 = chunks")
    case False
    then have "chunks1 = tl chunks" by (simp add: chunks1_def split: if_splits)
    with assms(1) have "chunks_size chunks1 < chunks_size chunks"
      by (cases chunks) (auto simp: chunks_size_def)
    with le32 le21 rest show ?thesis by simp
  next
    case True
    from assms(1) obtain c cs where cs: "chunks = c # cs" by (cases chunks) auto
    show ?thesis
    proof (cases "length c \<le> width")
      case True
      with tf \<open>chunks1 = chunks\<close> cs have "chunks_size chunks2 < chunks_size chunks"
        using take_fitting_first [of width c cs cur chunks2] by simp
      with le32 rest show ?thesis by simp
    next
      case False
      with tf \<open>chunks1 = chunks\<close> cs have st: "cur = []" "chunks2 = c # cs"
        using take_fitting_stuck [of width c cs cur chunks2] by simp_all
      have "0 < long_word_end c 0 width" by (rule long_word_end_pos)
      moreover from False have "0 < length c" by linarith
      ultimately have "length (drop (long_word_end c 0 width) c) < length c" by simp
      with st False have "chunks_size chunks3 < chunks_size chunks"
        by (simp add: chunks3_def chunks_size_def cs)
      with rest show ?thesis by simp
    qed
  qed
qed

text \<open>
  The outer \<open>while chunks\<close> loop of \<open>_wrap_chunks\<close> for \<open>max_lines = 1\<close>: the test
  \<open>len(lines) + 1 < max_lines\<close> is false, so a line is stored as it is only when nothing
  but one chunk of white space is left, and the placeholder goes in otherwise.
\<close>

function wrap_loop :: "nat \<Rightarrow> str list \<Rightarrow> str list \<Rightarrow> str list" where
  "wrap_loop width chunks lines =
     (if chunks = [] then lines
      else
        (case wrap_line width (lines \<noteq> []) chunks of
           (cur_line, rest) \<Rightarrow>
             if cur_line \<noteq> [] then
               (if (rest = [] \<or> (length rest = 1 \<and> str_strip (rest ! 0) = []))
                   \<and> length (concat cur_line) \<le> width
                then wrap_loop width rest (lines @ [concat cur_line])
                else
                  (case add_placeholder width cur_line of
                     Some l \<Rightarrow> lines @ [l]
                   | None \<Rightarrow>
                       if lines \<noteq> [] \<and> length (rstrip (last lines)) + length placeholder \<le> width
                       then butlast lines @ [rstrip (last lines) @ placeholder]
                       else lines @ [lstrip placeholder]))
             else wrap_loop width rest lines))"
  by pat_completeness auto
termination
  by (relation "measure (\<lambda>(w, chunks, l). chunks_size chunks)")
     (auto dest: wrap_line_decreases [OF _ sym])

declare wrap_loop.simps [simp del]

text \<open>\<open>_wrap_chunks\<close> with its two checks, \<open>wrap\<close>, \<open>fill\<close> and \<open>shorten\<close>.\<close>

definition wrap_chunks :: "nat \<Rightarrow> str list \<Rightarrow> error + str list" where
  "wrap_chunks width chunks =
     (if width \<le> 0 then Inl (ValueError ''invalid width (must be > 0)'')
      else if width < length (lstrip placeholder) then Inl (ValueError ''placeholder too large for max width'')
      else Inr (wrap_loop width chunks []))"

definition fill :: "lib \<Rightarrow> nat \<Rightarrow> str \<Rightarrow> error + str" where
  "fill l width txt =
     (case wrap_chunks width (split_chunks l txt) of
        Inl e \<Rightarrow> Inl e
      | Inr lines \<Rightarrow> Inr (str_join [0x0A] lines))"

definition shorten :: "lib \<Rightarrow> str \<Rightarrow> nat \<Rightarrow> error + str" where
  "shorten l txt width = fill l width (collapse txt)"

text \<open>\<open>wordsep_simple_re.split\<close>, the separator of \<open>textwrap\<close> that cuts at white space
  only: the maximal runs of white space and of other characters.\<close>

fun simple_split :: "str \<Rightarrow> str list" where
  "simple_split [] = []"
| "simple_split (c # cs) =
     (case simple_split cs of
        [] \<Rightarrow> [[c]]
      | w # wr \<Rightarrow>
          if (c \<in> set tw_whitespace) = (hd w \<in> set tw_whitespace) then (c # w) # wr
          else [c] # w # wr)"

section \<open>Element trees\<close>

text \<open>
  What \<open>etree.fromstring\<close> returns: an element has a tag, its \<open>.text\<close> (the character
  data before its first child, \<open>None\<close> when there is none) and its child elements in
  document order.
\<close>

datatype element = Element (tag: str) (elem_text: "str option") (children: "element list")

text \<open>The elements below an element in document order, the element itself left out: what
  the step \<open>.//\<close> of a path walks.\<close>

fun descendants :: "element \<Rightarrow> element list" where
  "descendants (Element t x cs) = concat (map (\<lambda>c. c # descendants c) cs)"

text \<open>
  The paths of \<open>fetcher.py\<close> are \<open>.//A\<close> (\<open>[Desc A]\<close>), \<open>A\<close> (\<open>[Child A]\<close>) and
  \<open>.//A/B/C\<close> (\<open>[Desc A, Child B, Child C]\<close>). Each step selects from every element the
  step before has selected, in order.
\<close>

datatype step = Desc str | Child str

fun select_step :: "step \<Rightarrow> element \<Rightarrow> element list" where
  "select_step (Desc name) e = filter (\<lambda>x. tag x = name) (descendants e)"
| "select_step (Child name) e = filter (\<lambda>x. tag x = name) (children e)"

fun findall_from :: "step list \<Rightarrow> element list \<Rightarrow> element list" where
  "findall_from [] es = es"
| "findall_from (st # path) es = findall_from path (concat (map (select_step st) es))"

definition findall :: "step list \<Rightarrow> element \<Rightarrow> element list" where
  "findall path e = findall_from path [e]"

definition find :: "step list \<Rightarrow> element \<Rightarrow> element option" where
  "find path e = (case findall path e of [] \<Rightarrow> None | x # _ \<Rightarrow> Some x)"

text \<open>\<open>findtext\<close>: \<open>None\<close> when the path selects nothing, and the empty string when
  the element selected has no text.\<close>

definition findtext :: "step list \<Rightarrow> element \<Rightarrow> str option" where
  "findtext path e =
     (case find path e of None \<Rightarrow> None | Some el \<Rightarrow> Some (py_or (elem_text el) []))"

section \<open>\<open>parse_articles\<close>\<close>

text \<open>A row of the report. \<open>PubmedID\<close> is \<open>None\<close> when the record has no \<open>PMID\<close>.\<close>

record row =
  PubmedID :: "str option"
  Title :: str
  Publication_Date :: str
  Non_academic_Authors :: str
  Company_Affiliations :: str
  Corresponding_Author_Email :: str

text \<open>The publication date of a record (lines 119 to 129).\<close>

definition date_node_of :: "element \<Rightarrow> element option" where
  "date_node_of art =
     (case find [Desc (ustr ''ArticleDate'')] art of
        None \<Rightarrow> find [Desc (ustr ''Journal''), Child (ustr ''JournalIssue''), Child (ustr ''PubDate'')] art
      | Some n \<Rightarrow> Some n)"

definition format_date :: "element \<Rightarrow> str" where
  "format_date date_node =
     (let y = py_or (findtext [Child (ustr ''Year'')] date_node) [];
          m = py_or (findtext [Child (ustr ''Month'')] date_node) [];
          d = py_or (findtext [Child (ustr ''Day'')] date_node) []
      in py_or (Some (str_join (ustr ''-'') (filter (\<lambda>p. p \<noteq> []) [y, m, d]))) (ustr ''N/A''))"

definition pub_date_of :: "element \<Rightarrow> str" where
  "pub_date_of art = (case date_node_of art of None \<Rightarrow> (ustr ''N/A'') | Some n \<Rightarrow> format_date n)"

text \<open>The three variables that the loop over the authors of a record updates.\<close>

record scan =
  non_acad_authors :: "str list"
  company_affils :: "str list"
  corr_email :: "str option"

definition scan0 :: scan where
  "scan0 = \<lparr>non_acad_authors = [], company_affils = [], corr_email = None\<rparr>"

text \<open>\<open>not corr_email\<close>: \<open>None\<close> and the empty string are false.\<close>

definition no_email :: "str option \<Rightarrow> bool" where
  "no_email e = (e = None \<or> e = Some [])"

text \<open>
  The body of the loop over the \<open>AffiliationInfo\<close> elements of an author. The body
  calls the function that the name \<open>is_company_affil\<close> stands for in the module when it
  runs; this function is the parameter \<open>classify\<close>, and \<open>article_step\<close> hands in
  \<open>is_company_affil\<close>. Python's \<open>and\<close> evaluates its right operand only when the left
  one is true, so \<open>classify\<close> is called on an affiliation that is not empty only.
\<close>

definition affil_of :: "element \<Rightarrow> str" where
  "affil_of affil_info = str_strip (py_or (findtext [Child (ustr ''Affiliation'')] affil_info) [])"

definition affil_step :: "(str \<Rightarrow> bool) \<Rightarrow> lib \<Rightarrow> str \<Rightarrow> scan \<Rightarrow> element \<Rightarrow> scan" where
  "affil_step classify l name s affil_info =
     (let affil = affil_of affil_info;
          s1 = (if no_email (corr_email s) then s\<lparr>corr_email := first_email l affil\<rparr> else s)
      in if affil \<noteq> [] \<and> classify affil
         then s1\<lparr>non_acad_authors := non_acad_authors s1 @ [name],
                 company_affils := company_affils s1 @ [affil]\<rparr>
         else s1)"

text \<open>The body of the loop over the authors of a record.\<close>

definition name_of :: "element \<Rightarrow> str" where
  "name_of author =
     (let last = py_or (findtext [Child (ustr ''LastName'')] author) [];
          first = py_or (findtext [Child (ustr ''ForeName'')] author)
                        (py_or (findtext [Child (ustr ''Initials'')] author) [])
      in str_strip (first @ (ustr '' '') @ last))"

definition author_step :: "(str \<Rightarrow> bool) \<Rightarrow> lib \<Rightarrow> scan \<Rightarrow> element \<Rightarrow> scan" where
  "author_step classify l s author =
     foldl (affil_step classify l (name_of author)) s (findall [Desc (ustr ''AffiliationInfo'')] author)"

definition scan_authors :: "(str \<Rightarrow> bool) \<Rightarrow> lib \<Rightarrow> element \<Rightarrow> scan" where
  "scan_authors classify l art =
     foldl (author_step classify l) scan0 (findall [Desc (ustr ''Author'')] art)"

text \<open>\<open>"; ".join(sorted(set(xs)))\<close>\<close>

definition join_sorted_set :: "str list \<Rightarrow> str" where
  "join_sorted_set xs = str_join (ustr ''; '') (sorted_list_of_set (set xs))"

text \<open>The body of the loop over the records: the rows with the row of this record
  appended when it has one, or the error that \<open>textwrap.shorten\<close> raises.\<close>

definition article_step :: "lib \<Rightarrow> row list \<Rightarrow> element \<Rightarrow> error + row list" where
  "article_step l rows art =
     (let pmid = findtext [Desc (ustr ''PMID'')] art;
          title = py_or (findtext [Desc (ustr ''ArticleTitle'')] art) (ustr ''N/A'');
          pub_date = pub_date_of art;
          s = scan_authors (is_company_affil l) l art
      in if non_acad_authors s \<noteq> [] then
           (case shorten l title 200 of
              Inl e \<Rightarrow> Inl e
            | Inr short \<Rightarrow>
                Inr (rows @
                  [\<lparr>PubmedID = pmid,
                    Title = short,
                    Publication_Date = pub_date,
                    Non_academic_Authors = join_sorted_set (non_acad_authors s),
                    Company_Affiliations = join_sorted_set (company_affils s),
                    Corresponding_Author_Email = py_or (corr_email s) (ustr ''N/A'')\<rparr>]))
         else Inr rows)"

fun articles_loop :: "lib \<Rightarrow> row list \<Rightarrow> element list \<Rightarrow> error + row list" where
  "articles_loop l rows [] = Inr rows"
| "articles_loop l rows (art # arts) =
     (case article_step l rows art of
        Inl e \<Rightarrow> Inl e
      | Inr rows' \<Rightarrow> articles_loop l rows' arts)"

text \<open>The rows of a decoded document.\<close>

definition parse_root :: "lib \<Rightarrow> element \<Rightarrow> error + row list" where
  "parse_root l root = articles_loop l [] (findall [Desc (ustr ''PubmedArticle'')] root)"

text \<open>
  \<open>parse_articles\<close>. The decoder \<open>etree.fromstring(xml_chunk.encode())\<close> of \<open>lxml\<close> is
  the parameter \<open>fromstring\<close>: it returns the root element, or the error it raises on a
  chunk that is not well formed.
\<close>

type_synonym decoder = "str \<Rightarrow> error + element"

definition parse_articles :: "decoder \<Rightarrow> lib \<Rightarrow> str \<Rightarrow> error + row list" where
  "parse_articles fromstring l xml_chunk =
     (case fromstring xml_chunk of
        Inl e \<Rightarrow> Inl e
      | Inr root \<Rightarrow> parse_root l root)"

section \<open>\<open>esearch\<close>, \<open>efetch\<close> and \<open>fetch_papers\<close>\<close>

text \<open>
  The two exchanges with the remote service are parameters. \<open>search_get query retmax\<close> is
  the request of \<open>esearch\<close> with \<open>raise_for_status\<close> and the decoding of the identifier
  list; \<open>fetch_get ids\<close> is the request of \<open>efetch\<close> for the comma-joined identifiers
  \<open>ids\<close> with \<open>raise_for_status\<close>, and returns \<open>resp.text\<close>. Each returns the error it
  raises when it fails.
\<close>

type_synonym search_transport = "str \<Rightarrow> int \<Rightarrow> error + str list"
type_synonym fetch_transport = "str \<Rightarrow> error + str"

definition esearch :: "search_transport \<Rightarrow> str \<Rightarrow> int \<Rightarrow> error + str list" where
  "esearch search_get query retmax = search_get query retmax"

text \<open>
  \<open>efetch\<close> is a generator. \<open>efetch_next\<close> is one resumption of it at the position
  \<open>start\<close> of \<open>range(0, len(pmids), BATCH_SIZE)\<close>: it stops when the range is used up,
  and otherwise issues the request for the batch \<open>pmids[start : start + BATCH_SIZE]\<close> and
  either raises or yields the text, to go on at \<open>start + BATCH_SIZE\<close>.
\<close>

datatype resumption = StopIteration | Raise error | Yield str nat

definition batch_at :: "str list \<Rightarrow> nat \<Rightarrow> str list" where
  "batch_at pmids start = take BATCH_SIZE (drop start pmids)"

text \<open>The \<open>id\<close> parameter of the request for the batch at \<open>start\<close>.\<close>

definition request_at :: "str list \<Rightarrow> nat \<Rightarrow> str" where
  "request_at pmids start = str_join (ustr '','') (batch_at pmids start)"

definition efetch_next :: "fetch_transport \<Rightarrow> str list \<Rightarrow> nat \<Rightarrow> resumption" where
  "efetch_next fetch_get pmids start =
     (if start < length pmids then
        (case fetch_get (request_at pmids start) of
           Inl e \<Rightarrow> Raise e
         | Inr txt \<Rightarrow> Yield txt (start + BATCH_SIZE))
      else StopIteration)"

lemma efetch_next_Yield:
  "efetch_next fetch_get pmids start = Yield txt start' \<Longrightarrow>
     start < length pmids \<and> start' = start + BATCH_SIZE \<and> fetch_get (request_at pmids start) = Inr txt"
  by (auto simp: efetch_next_def split: if_splits sum.splits)

text \<open>
  The generator run to its end, as \<open>list(efetch(pmids))\<close> runs it: the requests issued
  (their \<open>id\<close> parameters), the batches yielded, and the error when a request failed. A
  resumption issues one request unless it stops.
\<close>

record fetched =
  requests :: "str list"
  batches :: "str list"
  raised :: "error option"

function efetch_from :: "fetch_transport \<Rightarrow> str list \<Rightarrow> nat \<Rightarrow> fetched" where
  "efetch_from fetch_get pmids start =
     (case efetch_next fetch_get pmids start of
        StopIteration \<Rightarrow> \<lparr>requests = [], batches = [], raised = None\<rparr>
      | Raise e \<Rightarrow> \<lparr>requests = [request_at pmids start], batches = [], raised = Some e\<rparr>
      | Yield txt start' \<Rightarrow>
          (let r = efetch_from fetch_get pmids start'
           in r\<lparr>requests := request_at pmids start # requests r, batches := txt # batches r\<rparr>))"
  by pat_completeness auto
termination
  by (relation "measure (\<lambda>(g, pmids, start). length pmids - start)")
     (auto simp: BATCH_SIZE_def dest!: efetch_next_Yield)

declare efetch_from.simps [simp del]

definition efetch :: "fetch_transport \<Rightarrow> str list \<Rightarrow> fetched" where
  "efetch fetch_get pmids = efetch_from fetch_get pmids 0"

text \<open>
  \<open>fetch_papers\<close>: the loop \<open>for xml in efetch(pmids): rows.extend(parse_articles(xml))\<close>
  resumes the generator, parses what it yields and goes on; an error raised by the
  generator or by the parser leaves the function. The report is the list of the rows (the
  data frame has the six columns of a row). \<open>debug\<close> only sets the level of the log.
\<close>

function fetch_loop ::
  "fetch_transport \<Rightarrow> decoder \<Rightarrow> lib \<Rightarrow> str list \<Rightarrow> nat \<Rightarrow> row list \<Rightarrow> error + row list"
where
  "fetch_loop fetch_get fromstring l pmids start rows =
     (case efetch_next fetch_get pmids start of
        StopIteration \<Rightarrow> Inr rows
      | Raise e \<Rightarrow> Inl e
      | Yield xml start' \<Rightarrow>
          (case parse_articles fromstring l xml of
             Inl e \<Rightarrow> Inl e
           | Inr new_rows \<Rightarrow> fetch_loop fetch_get fromstring l pmids start' (rows @ new_rows)))"
  by pat_completeness auto
termination
  by (relation "measure (\<lambda>(g, f, w, pmids, start, rows). length pmids - start)")
     (auto simp: BATCH_SIZE_def dest!: efetch_next_Yield)

declare fetch_loop.simps [simp del]

definition fetch_papers ::
  "search_transport \<Rightarrow> fetch_transport \<Rightarrow> decoder \<Rightarrow> lib \<Rightarrow> str \<Rightarrow> int \<Rightarrow> bool
     \<Rightarrow> error + row list"
where
  "fetch_papers search_get fetch_get fromstring l query retmax debug =
     (case esearch search_get query retmax of
        Inl e \<Rightarrow> Inl e
      | Inr pmids \<Rightarrow> fetch_loop fetch_get fromstring l pmids 0 [])"

section \<open>Notions used to state the properties\<close>

text \<open>
  The words a pattern denotes, independently of the matcher: \<open>m \<in> lang l r\<close> says
  that the pattern \<open>r\<close> matches the whole of \<open>m\<close>. A string has a match when one of its
  substrings is such a word.
\<close>

fun lang :: "lib \<Rightarrow> regex \<Rightarrow> str set" where
  "lang l Eps = {[]}"
| "lang l (Lit c) = {[c]}"
| "lang l (LitI c) = {[x] | x. lit_i l c x}"
| "lang l (Set cs) = {[x] | x. in_cls cs x}"
| "lang l (Many n cs) = {w. n \<le> length w \<and> list_all (in_cls cs) w}"
| "lang l Space = {[x] | x. isspace x}"
| "lang l (Opt r) = insert [] (lang l r)"
| "lang l (Seq r1 r2) = {u @ v | u v. u \<in> lang l r1 \<and> v \<in> lang l r2}"
| "lang l (Alt r1 r2) = lang l r1 \<union> lang l r2"

definition has_match :: "lib \<Rightarrow> regex \<Rightarrow> str \<Rightarrow> bool" where
  "has_match l r s = (\<exists>pre m post. s = pre @ m @ post \<and> m \<in> lang l r)"

text \<open>A substring of \<open>s\<close> that the pattern matches and that starts where the first such
  substring of \<open>s\<close> starts.\<close>

definition leftmost_match :: "lib \<Rightarrow> regex \<Rightarrow> str \<Rightarrow> str \<Rightarrow> bool" where
  "leftmost_match l r s m =
     (\<exists>pre post. s = pre @ m @ post \<and> m \<in> lang l r
        \<and> (\<forall>pre' m' post'. s = pre' @ m' @ post' \<and> m' \<in> lang l r \<longrightarrow> length pre \<le> length pre'))"

text \<open>
  What the properties need of the Unicode database. The lower-case mapping adds 32 to the
  letters \<open>A\<close> to \<open>Z\<close> and leaves every other ASCII code point as it is; the upper-case
  mapping takes 32 from the letters \<open>a\<close> to \<open>z\<close> and leaves the full stop as it is;
  lowering twice is lowering once; the only code points outside ASCII that are lowered into
  ASCII are the capital I with a dot above, \<open>U+0130\<close>, which becomes \<open>i\<close>, and the
  Kelvin sign, \<open>U+212A\<close>, which becomes \<open>k\<close>; lowering keeps white space and makes no
  white space; the capital sigma is lowered to the sigma, and the sigma and the final sigma
  are lower case.
\<close>

definition unicode_law :: "lib \<Rightarrow> bool" where
  "unicode_law l =
     ((\<forall>c. 0x41 \<le> c \<and> c \<le> 0x5A \<longrightarrow> tolower l c = c + 32)
      \<and> (\<forall>c. 0 \<le> c \<and> c < 0x80 \<and> \<not> (0x41 \<le> c \<and> c \<le> 0x5A) \<longrightarrow> tolower l c = c)
      \<and> (\<forall>c. 0x61 \<le> c \<and> c \<le> 0x7A \<longrightarrow> toupper l c = c - 32)
      \<and> toupper l 0x2E = 0x2E
      \<and> (\<forall>c. tolower l (tolower l c) = tolower l c)
      \<and> (\<forall>c. 0 \<le> tolower l c \<and> tolower l c < 0x80 \<longrightarrow> (0 \<le> c \<and> c < 0x80) \<or> c = 0x0130 \<or> c = 0x212A)
      \<and> tolower l 0x0130 = 0x69 \<and> tolower l 0x212A = 0x6B
      \<and> (\<forall>c. isspace (tolower l c) = isspace c)
      \<and> tolower l 0x03A3 = 0x03C3 \<and> tolower l 0x03C3 = 0x03C3 \<and> tolower l 0x03C2 = 0x03C2)"

text \<open>
  What the properties need of \<open>wordsep_re.split\<close>: as the pattern is one capturing group,
  \<open>re.split\<close> returns the separators with the text between them, so the chunks
  concatenate to the text.
\<close>

definition wordsep_law :: "lib \<Rightarrow> bool" where
  "wordsep_law l = (\<forall>t. concat (wordsep l t) = t)"

text \<open>
  A library to run the definitions on. Its case mappings are those of the Unicode database
  on ASCII, on white space and on the code points that this theory names, and the identity
  elsewhere; it finds no capital sigma at the end of a word; its separator is
  \<open>wordsep_simple_re.split\<close>. The records and strings that the definitions are run on
  below have ASCII, white space and \<open>U+0130\<close> only.
\<close>

definition lib0 :: lib where
  "lib0 =
     \<lparr>tolower = (\<lambda>c. if 0x41 \<le> c \<and> c \<le> 0x5A then c + 32
                      else if c = 0x0130 then 0x69
                      else if c = 0x212A then 0x6B
                      else if c = 0x03A3 then 0x03C3
                      else c),
      toupper = (\<lambda>c. if 0x61 \<le> c \<and> c \<le> 0x7A then c - 32
                      else if c = 0x0131 then 0x49
                      else if c = 0x017F then 0x53
                      else if c = 0x03C3 \<or> c = 0x03C2 then 0x03A3
                      else c),
      final_sigma = (\<lambda>s i. False),
      wordsep = simple_split\<rparr>"

text \<open>
  The patterns that \<open>re.IGNORECASE\<close> reads the same in a string and in its lower-case
  form: those made of the letters \<open>a\<close> to \<open>z\<close>, the full stop and \<open>\s\<close>. Two code
  points are alike when each literal of such a pattern matches both or none, and both are
  white space or none is.
\<close>

fun ci_ascii :: "regex \<Rightarrow> bool" where
  "ci_ascii Eps = True"
| "ci_ascii (LitI c) = ((0x61 \<le> c \<and> c \<le> 0x7A) \<or> c = 0x2E)"
| "ci_ascii Space = True"
| "ci_ascii (Opt r) = ci_ascii r"
| "ci_ascii (Seq r1 r2) = (ci_ascii r1 \<and> ci_ascii r2)"
| "ci_ascii (Alt r1 r2) = (ci_ascii r1 \<and> ci_ascii r2)"
| "ci_ascii (Lit c) = False"
| "ci_ascii (Set cs) = False"
| "ci_ascii (Many n cs) = False"

definition alike :: "lib \<Rightarrow> codepoint \<Rightarrow> codepoint \<Rightarrow> bool" where
  "alike l c d =
     ((\<forall>av. (0x61 \<le> av \<and> av \<le> 0x7A) \<or> av = 0x2E \<longrightarrow> lit_i l av c = lit_i l av d)
      \<and> isspace c = isspace d)"

text \<open>Two affiliations with the capital I with a dot above.\<close>

definition dotted_institut :: str where
  "dotted_institut = ustr ''Pharma, '' @ [0x0130] @ ustr ''nstitut''"

definition dotted_inc :: str where
  "dotted_inc = ustr ''Acme '' @ [0x0130] @ ustr ''nc.''"

text \<open>The row that the loop over the records appends for a record, \<open>None\<close> when it appends
  none.\<close>

definition emitted_row :: "lib \<Rightarrow> element \<Rightarrow> row option" where
  "emitted_row l art = (case article_step l [] art of Inr [r] \<Rightarrow> Some r | _ \<Rightarrow> None)"

text \<open>Records to run the parser on: an element with text only, an element with children
  only, an author with a name and affiliations, and a record with a title, date elements and
  authors.\<close>

definition leaf :: "string \<Rightarrow> str \<Rightarrow> element" where
  "leaf t x = Element (ustr t) (Some x) []"

definition node :: "string \<Rightarrow> element list \<Rightarrow> element" where
  "node t cs = Element (ustr t) None cs"

definition author_of :: "str \<Rightarrow> str \<Rightarrow> str list \<Rightarrow> element" where
  "author_of fore family affils =
     node ''Author''
       ([leaf ''LastName'' family, leaf ''ForeName'' fore]
        @ map (\<lambda>a. node ''AffiliationInfo'' [leaf ''Affiliation'' a]) affils)"

definition record_of :: "str \<Rightarrow> element list \<Rightarrow> element list \<Rightarrow> element" where
  "record_of title dates authors =
     node ''PubmedArticle''
       [node ''MedlineCitation'' [leaf ''PMID'' (ustr ''123'')],
        node ''Article'' ([leaf ''ArticleTitle'' title] @ dates @ [node ''AuthorList'' authors])]"

definition jane :: element where
  "jane = author_of (ustr ''Jane'') (ustr ''Doe'') [ustr ''Acme Biotech Inc., Boston'']"

definition journal_date :: "element list \<Rightarrow> element" where
  "journal_date parts = node ''Journal'' [node ''JournalIssue'' [node ''PubDate'' parts]]"

definition full_journal_date :: element where
  "full_journal_date =
     journal_date [leaf ''Year'' (ustr ''2023''), leaf ''Month'' (ustr ''01''), leaf ''Day'' (ustr ''15'')]"

definition academic_author :: element where
  "academic_author =
     author_of (ustr ''John'') (ustr ''Roe'') [ustr ''Dept. of Biology, Example University'']"

definition two_records :: element where
  "two_records =
     node ''PubmedArticleSet''
       [record_of (ustr ''Sample'') [] [academic_author],
        record_of (ustr ''Sample'') [] [jane, academic_author]]"

definition carl :: element where
  "carl = author_of (ustr ''Carl'') (ustr ''Moe'')
     [ustr ''Beta Corp, Basel. Contact: carl.moe@beta-corp.com or office@beta-corp.org'',
      ustr ''Gamma GmbH, gamma@gamma.de'']"

text \<open>
  The pairs of display name and trimmed affiliation that the scan of a record visits, in
  the order of the scan: the authors as listed, and for each author the affiliations as
  listed. \<open>visit_step\<close> is the body of the inner loop on such a pair.
\<close>

definition visits :: "element \<Rightarrow> (str \<times> str) list" where
  "visits art =
     concat (map (\<lambda>a. map (\<lambda>i. (name_of a, affil_of i)) (findall [Desc (ustr ''AffiliationInfo'')] a))
                 (findall [Desc (ustr ''Author'')] art))"

definition visit_step :: "(str \<Rightarrow> bool) \<Rightarrow> lib \<Rightarrow> scan \<Rightarrow> str \<times> str \<Rightarrow> scan" where
  "visit_step classify l s v =
     (let s1 = (if no_email (corr_email s) then s\<lparr>corr_email := first_email l (snd v)\<rparr> else s)
      in if snd v \<noteq> [] \<and> classify (snd v)
         then s1\<lparr>non_acad_authors := non_acad_authors s1 @ [fst v],
                 company_affils := company_affils s1 @ [snd v]\<rparr>
         else s1)"

text \<open>The first e-mail address in a list of affiliations read in order.\<close>

fun first_found :: "lib \<Rightarrow> str list \<Rightarrow> str option" where
  "first_found l [] = None"
| "first_found l (a # as) = (case first_email l a of Some e \<Rightarrow> Some e | None \<Rightarrow> first_found l as)"

text \<open>A record has a company author when one of its authors has an affiliation that the
  classifier answers "company" for.\<close>

definition has_company_author :: "lib \<Rightarrow> element \<Rightarrow> bool" where
  "has_company_author l art =
     list_ex (\<lambda>author. list_ex (\<lambda>info. is_company_affil l (affil_of info))
                                (findall [Desc (ustr ''AffiliationInfo'')] author))
             (findall [Desc (ustr ''Author'')] art)"

text \<open>
  Trimming, said without \<open>str.strip\<close>: \<open>t\<close> is \<open>s\<close> trimmed when \<open>s\<close> is \<open>t\<close>
  between two runs of white space and \<open>t\<close> neither begins nor ends with white space.
\<close>

definition is_trim_of :: "str \<Rightarrow> str \<Rightarrow> bool" where
  "is_trim_of t s =
     (\<exists>a b. s = a @ t @ b \<and> list_all isspace a \<and> list_all isspace b
        \<and> (t = [] \<or> (\<not> isspace (hd t) \<and> \<not> isspace (last t))))"

text \<open>
  The name of an author and the text of an affiliation as the record has them, before they
  are trimmed: the fore name (the initials when there is none), a space and the last name;
  the text of the \<open>Affiliation\<close> element. \<open>raw_visits\<close> are the pairs of these in the
  order of the scan.
\<close>

definition raw_name_of :: "element \<Rightarrow> str" where
  "raw_name_of author =
     py_or (findtext [Child (ustr ''ForeName'')] author)
           (py_or (findtext [Child (ustr ''Initials'')] author) [])
     @ ustr '' '' @ py_or (findtext [Child (ustr ''LastName'')] author) []"

definition raw_affil_of :: "element \<Rightarrow> str" where
  "raw_affil_of affil_info = py_or (findtext [Child (ustr ''Affiliation'')] affil_info) []"

definition raw_visits :: "element \<Rightarrow> (str \<times> str) list" where
  "raw_visits art =
     concat (map (\<lambda>a. map (\<lambda>i. (raw_name_of a, raw_affil_of i))
                           (findall [Desc (ustr ''AffiliationInfo'')] a))
                 (findall [Desc (ustr ''Author'')] art))"

text \<open>The trimmed names, and the trimmed affiliations, of the pairs whose trimmed
  affiliation the classifier answers "company" for.\<close>

definition company_names :: "lib \<Rightarrow> element \<Rightarrow> str set" where
  "company_names l art =
     {n. \<exists>v \<in> set (raw_visits art). is_trim_of n (fst v)
           \<and> (\<exists>a. is_trim_of a (snd v) \<and> is_company_affil l a)}"

definition company_affiliations :: "lib \<Rightarrow> element \<Rightarrow> str set" where
  "company_affiliations l art =
     {a. \<exists>v \<in> set (raw_visits art). is_trim_of a (snd v) \<and> is_company_affil l a}"

text \<open>Authors whose names and affiliations come with white space around them, authors
  whose affiliations are white space or nothing, and an author with no \<open>Affiliation\<close>
  below the \<open>AffiliationInfo\<close>.\<close>

definition bob :: element where
  "bob = author_of (ustr ''Bob'') (ustr ''Ray'')
     [[0xA0] @ ustr ''Zeta Pharma Ltd '', ustr ''Acme Biotech Inc., Boston'']"

definition bob_again :: element where
  "bob_again = author_of (ustr '' Bob'') (ustr ''Ray'') [ustr ''Zeta Pharma Ltd'']"

definition blank_author :: element where
  "blank_author = author_of (ustr ''Ann'') (ustr ''Lee'') [ustr ''   '', [], [0xA0, 0x2003]]"

definition bare_author :: element where
  "bare_author =
     node ''Author'' [leaf ''LastName'' (ustr ''Poe''), node ''AffiliationInfo'' []]"

text \<open>A text as \<open>collapse\<close> leaves it: no white space at either end, and no white space
  but the space.\<close>

definition collapsed :: "str \<Rightarrow> bool" where
  "collapsed c =
     ((c \<noteq> [] \<longrightarrow> \<not> isspace (hd c) \<and> \<not> isspace (last c))
      \<and> (\<forall>x \<in> set c. isspace x \<longrightarrow> x = 0x20))"

definition long_title :: str where
  "long_title = concat (replicate 50 (ustr ''word ''))"

text \<open>
  The batches that \<open>efetch\<close> asks for from the position \<open>start\<close> on: the slices of
  \<open>BATCH_SIZE\<close> identifiers at \<open>start\<close>, \<open>start + BATCH_SIZE\<close>, and so on, as many as
  the remaining identifiers divided by \<open>BATCH_SIZE\<close> and rounded up.
\<close>

definition plan_from :: "str list \<Rightarrow> nat \<Rightarrow> str list list" where
  "plan_from pmids start =
     map (\<lambda>i. batch_at pmids (start + i * BATCH_SIZE))
         [0 ..< (length pmids - start + (BATCH_SIZE - 1)) div BATCH_SIZE]"

definition batches_of :: "str list \<Rightarrow> str list list" where
  "batches_of pmids = plan_from pmids 0"

text \<open>\<open>ceil(n / c)\<close> on natural numbers: the least \<open>k\<close> with \<open>n \<le> k * c\<close>.\<close>

definition ceil_div :: "nat \<Rightarrow> nat \<Rightarrow> nat" where
  "ceil_div n c = (n + (c - 1)) div c"

text \<open>The requests of a list of batches issued in order until one fails.\<close>

fun issue :: "fetch_transport \<Rightarrow> str list \<Rightarrow> fetched" where
  "issue fetch_get [] = \<lparr>requests = [], batches = [], raised = None\<rparr>"
| "issue fetch_get (q # qs) =
     (case fetch_get q of
        Inl e \<Rightarrow> \<lparr>requests = [q], batches = [], raised = Some e\<rparr>
      | Inr txt \<Rightarrow>
          (let r = issue fetch_get qs
           in r\<lparr>requests := q # requests r, batches := txt # batches r\<rparr>))"

text \<open>
  The stages of a run after the search, one for each batch: the batch is fetched and what
  comes back is parsed. \<open>stage\<close> is the outcome of the stage of a batch, its rows or the
  error of the fetch or of the parse. \<open>run_stages\<close> takes outcomes in order, gathers the
  rows and stops at the first error.
\<close>

definition stage :: "fetch_transport \<Rightarrow> decoder \<Rightarrow> lib \<Rightarrow> str list \<Rightarrow> error + row list" where
  "stage fetch_get fromstring l b =
     (case fetch_get (str_join (ustr '','') b) of
        Inl e \<Rightarrow> Inl e
      | Inr xml \<Rightarrow> parse_articles fromstring l xml)"

fun run_stages :: "(error + row list) list \<Rightarrow> row list \<Rightarrow> error + row list" where
  "run_stages [] rows = Inr rows"
| "run_stages (x # xs) rows =
     (case x of Inl e \<Rightarrow> Inl e | Inr new_rows \<Rightarrow> run_stages xs (rows @ new_rows))"

text \<open>The rows of a list of outcomes that are all rows.\<close>

fun rows_of :: "(error + row list) list \<Rightarrow> row list" where
  "rows_of [] = []"
| "rows_of (x # xs) = (case x of Inl e \<Rightarrow> rows_of xs | Inr new_rows \<Rightarrow> new_rows @ rows_of xs)"

section \<open>The matcher and the words of a pattern\<close>

lemma set_one: "set (one p s) = {rest. \<exists>x. p x \<and> s = x # rest}"
  by (cases s) auto

lemma rmatch_Many_set:
  "set (rmatch l (Many n cs) s) = {rest. \<exists>m. n \<le> length m \<and> list_all (in_cls cs) m \<and> s = m @ rest}"
proof -
  let ?P = "in_cls cs"
  let ?k = "length (takeWhile ?P s)"
  have "set (rmatch l (Many n cs) s) = (\<lambda>j. drop j s) ` {n ..< Suc ?k}"
    by (simp add: Let_def del: upt_Suc)
  also have "\<dots> = {rest. \<exists>m. n \<le> length m \<and> list_all ?P m \<and> s = m @ rest}" (is "?L = ?R")
  proof (intro set_eqI iffI)
    fix rest assume "rest \<in> ?L"
    then obtain j where j: "n \<le> j" "j \<le> ?k" "rest = drop j s" by auto
    have "take j s = take j (takeWhile ?P s)"
      using j(2) by (metis append_eq_conv_conj takeWhile_dropWhile_id take_all_iff take_append
            diff_is_0_eq take_0 append_Nil2 order_refl take_take min.absorb1)
    then have "list_all ?P (take j s)"
      by (metis in_set_takeD list_all_iff set_takeWhileD)
    moreover have "length (take j s) = j"
      using j(2) length_takeWhile_le [of ?P s] by simp
    ultimately show "rest \<in> ?R" using j by (auto intro!: exI [of _ "take j s"])
  next
    fix rest assume "rest \<in> ?R"
    then obtain m where m: "n \<le> length m" "list_all ?P m" "s = m @ rest" by auto
    then have "takeWhile ?P s = m @ takeWhile ?P rest"
      by (simp add: list_all_iff takeWhile_append2)
    then have "length m \<le> ?k" by simp
    with m show "rest \<in> ?L" by (auto intro!: image_eqI [of _ _ "length m"])
  qed
  finally show ?thesis .
qed

lemma rmatch_lang: "set (rmatch l r s) = {rest. \<exists>m \<in> lang l r. s = m @ rest}"
proof (induction r arbitrary: s)
  case (Many n cs)
  show ?case unfolding rmatch_Many_set by auto
next
  case (Seq r1 r2)
  then show ?case by (fastforce simp: )
qed (auto simp: set_one)

lemma rmatch_nonempty_iff: "rmatch l r s \<noteq> [] \<longleftrightarrow> (\<exists>m \<in> lang l r. \<exists>rest. s = m @ rest)"
proof -
  have "rmatch l r s \<noteq> [] \<longleftrightarrow> set (rmatch l r s) \<noteq> {}" by simp
  then show ?thesis unfolding rmatch_lang by auto
qed

lemma rmatch_suffix: "rest \<in> set (rmatch l r s) \<Longrightarrow> \<exists>m \<in> lang l r. s = m @ rest"
  unfolding rmatch_lang by simp

lemma search_None_iff: "search l r s = None \<longleftrightarrow> \<not> has_match l r s"
proof (induction s)
  case Nil
  have "has_match l r [] \<longleftrightarrow> rmatch l r [] \<noteq> []"
    by (auto simp: has_match_def rmatch_nonempty_iff)
  then show ?case by (auto split: list.splits)
next
  case (Cons c cs)
  have "has_match l r (c # cs) \<longleftrightarrow> rmatch l r (c # cs) \<noteq> [] \<or> has_match l r cs"
  proof
    assume "has_match l r (c # cs)"
    then obtain pre m post where d: "c # cs = pre @ m @ post" "m \<in> lang l r"
      by (auto simp: has_match_def)
    show "rmatch l r (c # cs) \<noteq> [] \<or> has_match l r cs"
    proof (cases pre)
      case Nil
      with d show ?thesis by (auto simp: rmatch_nonempty_iff)
    next
      case (Cons p pre')
      with d have "cs = pre' @ m @ post" by simp
      with d(2) show ?thesis by (auto simp: has_match_def)
    qed
  next
    assume "rmatch l r (c # cs) \<noteq> [] \<or> has_match l r cs"
    then show "has_match l r (c # cs)"
    proof
      assume "rmatch l r (c # cs) \<noteq> []"
      then obtain m rest where "m \<in> lang l r" "c # cs = m @ rest"
        by (auto simp: rmatch_nonempty_iff)
      then have "c # cs = [] @ m @ rest \<and> m \<in> lang l r" by simp
      then show ?thesis unfolding has_match_def by blast
    next
      assume "has_match l r cs"
      then obtain pre m post where "cs = pre @ m @ post" "m \<in> lang l r"
        by (auto simp: has_match_def)
      then have "c # cs = (c # pre) @ m @ post \<and> m \<in> lang l r" by simp
      then show ?thesis unfolding has_match_def by blast
    qed
  qed
  with Cons.IH show ?case by (auto split: list.splits)
qed

lemma has_match_search: "has_match l r s \<longleftrightarrow> search l r s \<noteq> None"
  by (simp add: search_None_iff)

lemma search_Some_lang: "search l r s = Some m \<Longrightarrow> m \<in> lang l r"
proof (induction s)
  case Nil
  then have "rmatch l r [] \<noteq> []" by (auto split: list.splits)
  then have "[] \<in> lang l r" by (auto simp: rmatch_nonempty_iff)
  with Nil show ?case by (auto split: list.splits)
next
  case (Cons c cs)
  show ?case
  proof (cases "rmatch l r (c # cs)")
    case Nil
    with Cons show ?thesis by simp
  next
    case hit: (Cons rest rs)
    then have "rest \<in> set (rmatch l r (c # cs))" by simp
    then obtain m0 where m0: "m0 \<in> lang l r" "c # cs = m0 @ rest"
      using rmatch_suffix by blast
    then have "take (length (c # cs) - length rest) (c # cs) = m0"
      by (metis add_diff_cancel_right' append_eq_conv_conj length_append)
    moreover from hit Cons.prems have "m = take (length (c # cs) - length rest) (c # cs)"
      by simp
    ultimately show ?thesis using m0(1) by simp
  qed
qed

lemma search_leftmost: "search l r s = Some m \<Longrightarrow> leftmost_match l r s m"
proof (induction s)
  case Nil
  then have "m = []" by (auto split: list.splits)
  moreover from Nil have "m \<in> lang l r" by (rule search_Some_lang)
  ultimately show ?case by (auto simp: leftmost_match_def)
next
  case (Cons c cs)
  show ?case
  proof (cases "rmatch l r (c # cs)")
    case hit: (Cons rest rs)
    then have "rest \<in> set (rmatch l r (c # cs))" by simp
    then obtain m0 where m0: "m0 \<in> lang l r" "c # cs = m0 @ rest"
      using rmatch_suffix by blast
    then have "take (length (c # cs) - length rest) (c # cs) = m0"
      by (metis add_diff_cancel_right' append_eq_conv_conj length_append)
    moreover from hit Cons.prems have "m = take (length (c # cs) - length rest) (c # cs)"
      by simp
    ultimately have "c # cs = [] @ m @ rest \<and> m \<in> lang l r" using m0 by simp
    then show ?thesis unfolding leftmost_match_def by (metis le0 list.size(3))
  next
    case Nil
    with Cons.prems have "search l r cs = Some m" by simp
    from Cons.IH [OF this] obtain pre post where p: "cs = pre @ m @ post" "m \<in> lang l r"
      and least: "\<And>pre' m' post'. cs = pre' @ m' @ post' \<Longrightarrow> m' \<in> lang l r \<Longrightarrow> length pre \<le> length pre'"
      unfolding leftmost_match_def by blast
    have "length (c # pre) \<le> length pre'" if d: "c # cs = pre' @ m' @ post'" and lg: "m' \<in> lang l r"
      for pre' m' post'
    proof (cases pre')
      case Nil
      with d lg have "rmatch l r (c # cs) \<noteq> []" by (auto simp: rmatch_nonempty_iff)
      with \<open>rmatch l r (c # cs) = []\<close> show ?thesis by simp
    next
      case (Cons x pre'')
      with d have "cs = pre'' @ m' @ post'" by simp
      from least [OF this lg] Cons show ?thesis by simp
    qed
    moreover from p have "c # cs = (c # pre) @ m @ post" by simp
    ultimately show ?thesis unfolding leftmost_match_def using p(2) by blast
  qed
qed

section \<open>The affiliation classifier\<close>

lemma unicode_law_lib0: "unicode_law lib0"
  by (auto simp: unicode_law_def lib0_def isspace_def)

lemma extra_cases_letter:
  "0x61 \<le> av \<Longrightarrow> av \<le> 0x7A \<Longrightarrow>
     map_of EXTRA_CASES av
       = (if av = 0x69 then Some [0x0131] else if av = 0x73 then Some [0x017F] else None)"
  by (auto simp: EXTRA_CASES_def)

lemma lit_i_letter:
  assumes "unicode_law l" and "0x61 \<le> av" and "av \<le> 0x7A"
  shows "lit_i l av ch \<longleftrightarrow>
     tolower l ch = av \<or> (av = 0x69 \<and> tolower l ch = 0x0131) \<or> (av = 0x73 \<and> tolower l ch = 0x017F)"
proof -
  from assms have up: "toupper l av = av - 32" by (simp add: unicode_law_def)
  from assms have lo: "tolower l av = av" by (simp add: unicode_law_def)
  from up have c: "iscased l av" by (simp add: iscased_def)
  show ?thesis
    using c lo extra_cases_letter [OF assms(2,3)] by (auto simp: lit_i_def Let_def)
qed

lemma lit_i_dot:
  assumes "unicode_law l"
  shows "lit_i l 0x2E ch \<longleftrightarrow> ch = 0x2E"
proof -
  from assms have "toupper l 0x2E = 0x2E" and "tolower l 0x2E = 0x2E"
    by (simp_all add: unicode_law_def)
  then have "\<not> iscased l 0x2E" by (simp add: iscased_def)
  then show ?thesis by (simp add: lit_i_def)
qed

lemma tolower_dot:
  assumes "unicode_law l" and "c \<noteq> 0x0130"
  shows "tolower l c = 0x2E \<longleftrightarrow> c = 0x2E"
proof
  assume "c = 0x2E"
  with assms(1) show "tolower l c = 0x2E" by (simp add: unicode_law_def)
next
  assume t: "tolower l c = 0x2E"
  with assms(1) have "(0 \<le> c \<and> c < 0x80) \<or> c = 0x0130 \<or> c = 0x212A"
    unfolding unicode_law_def by (metis zero_le_numeral numeral_less_iff semiring_norm(76,78,79,80,81))
  moreover from assms(1) have "tolower l 0x212A = 0x6B" by (simp add: unicode_law_def)
  ultimately have a: "0 \<le> c \<and> c < 0x80" using assms(2) t by auto
  show "c = 0x2E"
  proof (cases "0x41 \<le> c \<and> c \<le> 0x5A")
    case True
    with assms(1) have "tolower l c = c + 32" by (simp add: unicode_law_def)
    with t True show ?thesis by simp
  next
    case False
    with assms(1) a have "tolower l c = c" by (simp add: unicode_law_def)
    with t show ?thesis by simp
  qed
qed

lemma tolower_alike:
  assumes "unicode_law l" and "c \<noteq> 0x0130"
  shows "alike l c (tolower l c)"
proof -
  from assms(1) have idem: "tolower l (tolower l c) = tolower l c"
    and sp: "isspace (tolower l c) = isspace c"
    by (simp_all add: unicode_law_def)
  show ?thesis
    unfolding alike_def
    using idem sp tolower_dot [OF assms]
    by (auto simp: lit_i_letter [OF assms(1)] lit_i_dot [OF assms(1)])
qed

lemma sigma_alike:
  assumes "unicode_law l"
  shows "alike l 0x03A3 0x03C3" and "alike l 0x03A3 0x03C2"
proof -
  from assms have t: "tolower l 0x03A3 = 0x03C3" "tolower l 0x03C3 = 0x03C3" "tolower l 0x03C2 = 0x03C2"
    by (simp_all add: unicode_law_def)
  show "alike l 0x03A3 0x03C3" and "alike l 0x03A3 0x03C2"
    unfolding alike_def
    using t by (auto simp: lit_i_letter [OF assms] lit_i_dot [OF assms] isspace_def)
qed

lemma lower_at_alike:
  assumes "unicode_law l" and "s ! i \<noteq> 0x0130"
  shows "\<exists>x. lower_at l s i = [x] \<and> alike l (s ! i) x"
  using assms tolower_alike [OF assms] sigma_alike [OF assms(1)]
  by (auto simp: lower_at_def Let_def)

lemma concat_singletons_all2:
  assumes "\<forall>i < length s. \<exists>x. f i = [x] \<and> P (s ! i) x"
  shows "n \<le> length s \<Longrightarrow> list_all2 P (take n s) (concat (map f [0 ..< n]))"
proof (induction n)
  case 0
  show ?case by simp
next
  case (Suc n)
  then have n: "n < length s" by simp
  with assms obtain x where x: "f n = [x]" "P (s ! n) x" by blast
  from Suc have "list_all2 P (take n s) (concat (map f [0 ..< n]))" by simp
  moreover have "take (Suc n) s = take n s @ [s ! n]" using n by (rule take_Suc_conv_app_nth)
  ultimately show ?case using x by (simp add: list_all2_appendI)
qed

lemma str_lower_alike:
  assumes "unicode_law l" and "0x0130 \<notin> set s"
  shows "list_all2 (alike l) s (str_lower l s)"
proof -
  have "\<forall>i < length s. \<exists>x. lower_at l s i = [x] \<and> alike l (s ! i) x"
  proof (intro allI impI)
    fix i assume "i < length s"
    with assms(2) have "s ! i \<noteq> 0x0130" by (metis nth_mem)
    with assms(1) show "\<exists>x. lower_at l s i = [x] \<and> alike l (s ! i) x" by (rule lower_at_alike)
  qed
  from concat_singletons_all2 [OF this, of "length s"] show ?thesis
    by (simp add: str_lower_def)
qed

lemma alike_sym: "alike l c d \<Longrightarrow> alike l d c"
  by (simp add: alike_def)

lemma lang_alike_imp:
  "ci_ascii r \<Longrightarrow> list_all2 (alike l) m m' \<Longrightarrow> m \<in> lang l r \<Longrightarrow> m' \<in> lang l r"
proof (induction r arbitrary: m m')
  case Eps
  then show ?case by simp
next
  case (LitI c)
  from LitI.prems(3) obtain x where x: "m = [x]" "lit_i l c x" by auto
  with LitI.prems(2) obtain y where y: "m' = [y]" "alike l x y"
    by (auto simp: list_all2_Cons1)
  from LitI.prems(1) y(2) x(2) have "lit_i l c y" by (auto simp: alike_def)
  with y show ?case by simp
next
  case Space
  from Space.prems(3) obtain x where x: "m = [x]" "isspace x" by auto
  with Space.prems(2) obtain y where y: "m' = [y]" "alike l x y"
    by (auto simp: list_all2_Cons1)
  with x have "isspace y" by (simp add: alike_def)
  with y show ?case by simp
next
  case (Opt r)
  show ?case
  proof (cases "m = []")
    case True
    with Opt.prems(2) show ?thesis by simp
  next
    case False
    with Opt.prems have "m \<in> lang l r" "ci_ascii r" by simp_all
    with Opt.IH Opt.prems(2) show ?thesis by simp
  qed
next
  case (Seq r1 r2)
  from Seq.prems(3) obtain u v where uv: "m = u @ v" "u \<in> lang l r1" "v \<in> lang l r2" by auto
  with Seq.prems(2) obtain u' v' where m': "m' = u' @ v'"
    and a: "list_all2 (alike l) u u'" "list_all2 (alike l) v v'"
    by (auto simp: list_all2_append1)
  from Seq.prems(1) have "ci_ascii r1" "ci_ascii r2" by simp_all
  with Seq.IH a uv have "u' \<in> lang l r1" "v' \<in> lang l r2" by blast+
  with m' show ?case by auto
next
  case (Alt r1 r2)
  then show ?case by auto
qed simp_all

lemma has_match_alike_imp:
  assumes "ci_ascii r" and "list_all2 (alike l) s s'" and "has_match l r s"
  shows "has_match l r s'"
proof -
  from assms(3) obtain pre m post where d: "s = pre @ m @ post" "m \<in> lang l r"
    by (auto simp: has_match_def)
  with assms(2) obtain pre' rest' where 1: "s' = pre' @ rest'"
    and r: "list_all2 (alike l) (m @ post) rest'"
    by (auto simp: list_all2_append1)
  from r obtain m' post' where 2: "rest' = m' @ post'" and a: "list_all2 (alike l) m m'"
    by (auto simp: list_all2_append1)
  from assms(1) a d(2) have "m' \<in> lang l r" by (rule lang_alike_imp)
  with 1 2 show ?thesis unfolding has_match_def by blast
qed

lemma has_match_lower:
  assumes "unicode_law l" and "0x0130 \<notin> set s" and "ci_ascii r"
  shows "has_match l r (str_lower l s) \<longleftrightarrow> has_match l r s"
proof -
  from assms(1,2) have a: "list_all2 (alike l) s (str_lower l s)" by (rule str_lower_alike)
  then have b: "list_all2 (alike l) (str_lower l s) s"
    by (auto simp: list_all2_conv_all_nth intro: alike_sym)
  from has_match_alike_imp [OF assms(3) a] has_match_alike_imp [OF assms(3) b]
  show ?thesis by blast
qed

lemma ci_ascii_patterns: "ci_ascii COMPANY_KEYWORDS" "ci_ascii ACADEMIC_KEYWORDS"
  by code_simp+

text \<open>
  C1, as the claim states it, fails. \<open>is_company_affil\<close> searches the lower-case form of
  the affiliation, and \<open>str.lower()\<close> turns the capital I with a dot above into \<open>i\<close>
  and the combining dot \<open>U+0307\<close>, while \<open>re.IGNORECASE\<close> reads this capital as an
  \<open>i\<close>. The affiliation \<open>Pharma, \<close>\<open>U+0130\<close>\<open>nstitut\<close> has a match of the company
  pattern and a match of the academic pattern, and the classifier answers "company"; the
  affiliation \<open>Acme \<close>\<open>U+0130\<close>\<open>nc.\<close> has a match of the company pattern and none of
  the academic pattern, and the classifier answers "other".
\<close>

theorem is_company_affil_counterexample:
  "search lib0 COMPANY_KEYWORDS dotted_institut \<noteq> None
   \<and> search lib0 ACADEMIC_KEYWORDS dotted_institut \<noteq> None
   \<and> is_company_affil lib0 dotted_institut
   \<and> search lib0 COMPANY_KEYWORDS dotted_inc \<noteq> None
   \<and> search lib0 ACADEMIC_KEYWORDS dotted_inc = None
   \<and> \<not> is_company_affil lib0 dotted_inc"
  by code_simp

text \<open>
  C1, amended. \<open>is_company_affil\<close> answers "company" (\<open>True\<close>) exactly when the
  lower-case form of the affiliation has a match of the company pattern and no match of the
  academic pattern, where a string has a match exactly when the search of the pattern in it
  finds one. For an affiliation without the capital I with a dot above, this is exactly when
  the affiliation itself has a match of the company pattern and no match of the academic
  pattern: with a company indicator and an academic indicator it is "other", and with a
  company indicator only it is "company".
\<close>

theorem is_company_affil_lowered:
  "(is_company_affil l affil \<longleftrightarrow>
      has_match l COMPANY_KEYWORDS (str_lower l affil)
      \<and> \<not> has_match l ACADEMIC_KEYWORDS (str_lower l affil))
   \<and> (has_match l r s \<longleftrightarrow> search l r s \<noteq> None)
   \<and> (unicode_law l \<and> 0x0130 \<notin> set affil \<longrightarrow>
        (is_company_affil l affil \<longleftrightarrow>
           has_match l COMPANY_KEYWORDS affil \<and> \<not> has_match l ACADEMIC_KEYWORDS affil)
        \<and> (has_match l COMPANY_KEYWORDS affil \<and> has_match l ACADEMIC_KEYWORDS affil
             \<longrightarrow> \<not> is_company_affil l affil)
        \<and> (has_match l COMPANY_KEYWORDS affil \<and> \<not> has_match l ACADEMIC_KEYWORDS affil
             \<longrightarrow> is_company_affil l affil))"
proof -
  have a: "is_company_affil l affil \<longleftrightarrow>
      has_match l COMPANY_KEYWORDS (str_lower l affil)
      \<and> \<not> has_match l ACADEMIC_KEYWORDS (str_lower l affil)"
    by (simp add: is_company_affil_def Let_def search_None_iff)
  have b: "has_match l r s \<longleftrightarrow> search l r s \<noteq> None" by (rule has_match_search)
  have c: "is_company_affil l affil \<longleftrightarrow>
           has_match l COMPANY_KEYWORDS affil \<and> \<not> has_match l ACADEMIC_KEYWORDS affil"
    if "unicode_law l" and "0x0130 \<notin> set affil"
    using a has_match_lower [OF that ci_ascii_patterns(1)] has_match_lower [OF that ci_ascii_patterns(2)]
    by simp
  from a b c show ?thesis by blast
qed

theorem is_company_affil_lowered_witness:
  "is_company_affil lib0 (ustr ''Acme Biotech Inc., Boston'')
   \<and> has_match lib0 COMPANY_KEYWORDS (ustr ''Acme Biotech Inc., Boston'')
   \<and> \<not> has_match lib0 ACADEMIC_KEYWORDS (ustr ''Acme Biotech Inc., Boston'')
   \<and> has_match lib0 COMPANY_KEYWORDS (ustr ''Dept. of Oncology, Acme Pharma Ltd'')
   \<and> has_match lib0 ACADEMIC_KEYWORDS (ustr ''Dept. of Oncology, Acme Pharma Ltd'')
   \<and> \<not> is_company_affil lib0 (ustr ''Dept. of Oncology, Acme Pharma Ltd'')"
proof -
  let ?a = "ustr ''Acme Biotech Inc., Boston''"
  let ?d = "ustr ''Dept. of Oncology, Acme Pharma Ltd''"
  have c1: "search lib0 COMPANY_KEYWORDS ?a \<noteq> None" by code_simp
  have a1: "search lib0 ACADEMIC_KEYWORDS ?a = None" by code_simp
  have c2: "search lib0 COMPANY_KEYWORDS ?d \<noteq> None" by code_simp
  have a2: "search lib0 ACADEMIC_KEYWORDS ?d \<noteq> None" by code_simp
  have n1: "0x0130 \<notin> set ?a" by code_simp
  have n2: "0x0130 \<notin> set ?d" by code_simp
  note t1 = is_company_affil_lowered [of lib0 ?a]
  note t2 = is_company_affil_lowered [of lib0 ?d]
  have m: "has_match lib0 r s \<longleftrightarrow> search lib0 r s \<noteq> None" for r s
    using is_company_affil_lowered [of lib0 ?a r s] by blast
  from t1 n1 unicode_law_lib0 have i1: "is_company_affil lib0 ?a \<longleftrightarrow>
           has_match lib0 COMPANY_KEYWORDS ?a \<and> \<not> has_match lib0 ACADEMIC_KEYWORDS ?a"
    by blast
  from t2 n2 unicode_law_lib0 have i2: "is_company_affil lib0 ?d \<longleftrightarrow>
           has_match lib0 COMPANY_KEYWORDS ?d \<and> \<not> has_match lib0 ACADEMIC_KEYWORDS ?d"
    by blast
  from c1 a1 c2 a2 i1 i2 show ?thesis by (simp add: m)
qed

section \<open>The scan of the authors of a record\<close>

lemma affil_step_visit: "affil_step c l name s i = visit_step c l s (name, affil_of i)"
  by (simp add: affil_step_def visit_step_def Let_def)

lemma author_step_visits:
  "author_step c l s a =
     foldl (visit_step c l) s
       (map (\<lambda>i. (name_of a, affil_of i)) (findall [Desc (ustr ''AffiliationInfo'')] a))"
  by (simp add: author_step_def foldl_map affil_step_visit [abs_def])

lemma foldl_author_step:
  "foldl (author_step c l) s as =
     foldl (visit_step c l) s
       (concat (map (\<lambda>a. map (\<lambda>i. (name_of a, affil_of i))
                               (findall [Desc (ustr ''AffiliationInfo'')] a)) as))"
  by (induction as arbitrary: s) (simp_all add: author_step_visits)

lemma scan_authors_visits: "scan_authors c l art = foldl (visit_step c l) scan0 (visits art)"
  by (simp add: scan_authors_def visits_def foldl_author_step)

lemma is_company_affil_Nil: "\<not> is_company_affil l []"
  by (simp add: is_company_affil_def str_lower_def COMPANY_KEYWORDS_def)

lemma visit_step_names:
  "non_acad_authors (visit_step c l s v) =
     non_acad_authors s @ (if snd v \<noteq> [] \<and> c (snd v) then [fst v] else [])"
  by (auto simp: visit_step_def Let_def)

lemma visit_step_affils:
  "company_affils (visit_step c l s v) =
     company_affils s @ (if snd v \<noteq> [] \<and> c (snd v) then [snd v] else [])"
  by (auto simp: visit_step_def Let_def)

lemma visit_step_email:
  "corr_email (visit_step c l s v) =
     (if no_email (corr_email s) then first_email l (snd v) else corr_email s)"
  by (auto simp: visit_step_def Let_def)

lemma foldl_visit_names:
  "non_acad_authors (foldl (visit_step c l) s vs) =
     non_acad_authors s @ map fst (filter (\<lambda>v. snd v \<noteq> [] \<and> c (snd v)) vs)"
  by (induction vs arbitrary: s) (simp_all add: visit_step_names)

lemma foldl_visit_affils:
  "company_affils (foldl (visit_step c l) s vs) =
     company_affils s @ map snd (filter (\<lambda>v. snd v \<noteq> [] \<and> c (snd v)) vs)"
  by (induction vs arbitrary: s) (simp_all add: visit_step_affils)

lemma EMAIL_RE_nonempty: "[] \<notin> lang l EMAIL_RE"
  by (simp add: EMAIL_RE_def)

lemma first_email_nonempty: "first_email l a \<noteq> Some []"
  using search_Some_lang [of l EMAIL_RE a "[]"] EMAIL_RE_nonempty
  by (auto simp: first_email_def)

lemma no_email_first_email: "no_email (first_email l a) \<longleftrightarrow> first_email l a = None"
  by (simp add: no_email_def first_email_nonempty)

lemma foldl_visit_email:
  "corr_email (foldl (visit_step c l) s vs) =
     (if no_email (corr_email s) then
        (case first_found l (map snd vs) of
           None \<Rightarrow> (if vs = [] then corr_email s else None)
         | Some e \<Rightarrow> Some e)
      else corr_email s)"
proof (induction vs arbitrary: s)
  case Nil
  show ?case by simp
next
  case (Cons v vs)
  show ?case
    by (cases "first_email l (snd v)")
       (auto simp: Cons.IH visit_step_email no_email_def first_email_nonempty split: option.splits)
qed

lemma scan_authors_names_with:
  "non_acad_authors (scan_authors c l art)
     = map fst (filter (\<lambda>v. snd v \<noteq> [] \<and> c (snd v)) (visits art))"
  by (simp add: scan_authors_visits foldl_visit_names scan0_def)

lemma scan_authors_affils_with:
  "company_affils (scan_authors c l art)
     = map snd (filter (\<lambda>v. snd v \<noteq> [] \<and> c (snd v)) (visits art))"
  by (simp add: scan_authors_visits foldl_visit_affils scan0_def)

lemma company_guard: "(a \<noteq> [] \<and> is_company_affil l a) = is_company_affil l a"
  using is_company_affil_Nil [of l] by auto

lemma scan_authors_names:
  "non_acad_authors (scan_authors (is_company_affil l) l art)
     = map fst (filter (\<lambda>v. is_company_affil l (snd v)) (visits art))"
  by (simp add: scan_authors_names_with company_guard)

lemma scan_authors_affils:
  "company_affils (scan_authors (is_company_affil l) l art)
     = map snd (filter (\<lambda>v. is_company_affil l (snd v)) (visits art))"
  by (simp add: scan_authors_affils_with company_guard)

lemma scan_authors_email:
  "corr_email (scan_authors c l art) = first_found l (map snd (visits art))"
  by (simp add: scan_authors_visits foldl_visit_email scan0_def no_email_def split: option.splits)

section \<open>The publication date\<close>

lemma emitted_row_date:
  "emitted_row l art = Some r \<Longrightarrow> Publication_Date r = pub_date_of art"
  by (auto simp: emitted_row_def article_step_def Let_def split: if_splits sum.splits list.splits)

lemma py_or_Some: "py_or (Some s) d = (if s = [] then d else s)"
  by (simp add: py_or_def)

text \<open>
  C3, as the claim states it, fails: a record with no date element gets \<open>N/A\<close>, not
  \<open>unknown\<close>, and a record whose date element has a day only gets the day, which is none
  of the three forms.
\<close>

theorem publication_date_counterexample:
  "map_option Publication_Date (emitted_row lib0 (record_of (ustr ''Sample'') [] [jane]))
     = Some (ustr ''N/A'')
   \<and> map_option Publication_Date
        (emitted_row lib0
           (record_of (ustr ''Sample'') [node ''ArticleDate'' [leaf ''Day'' (ustr ''15'')]] [jane]))
      = Some (ustr ''15'')"
  by code_simp

text \<open>
  C3, amended. The date element is the first \<open>ArticleDate\<close> of the record, and the first
  \<open>PubDate\<close> of a \<open>JournalIssue\<close> of a \<open>Journal\<close> only when the record has no
  \<open>ArticleDate\<close>. The publication date of the row is made of the texts of \<open>Year\<close>,
  \<open>Month\<close> and \<open>Day\<close> of that element that are not empty, in this order, joined by a
  hyphen: year, month and day, year and month, or the year alone when these are what the
  element has. It is \<open>N/A\<close> when the record has no date element or the element has
  none of the three.
\<close>

theorem publication_date_format:
  fixes art n :: element
  defines "y \<equiv> py_or (findtext [Child (ustr ''Year'')] n) []"
      and "m \<equiv> py_or (findtext [Child (ustr ''Month'')] n) []"
      and "d \<equiv> py_or (findtext [Child (ustr ''Day'')] n) []"
  shows "(emitted_row l art = Some r \<longrightarrow> Publication_Date r = pub_date_of art)
     \<and> (find [Desc (ustr ''ArticleDate'')] art = Some n \<longrightarrow> pub_date_of art = format_date n)
     \<and> (find [Desc (ustr ''ArticleDate'')] art = None
          \<and> find [Desc (ustr ''Journal''), Child (ustr ''JournalIssue''), Child (ustr ''PubDate'')] art
              = Some n
        \<longrightarrow> pub_date_of art = format_date n)
     \<and> (find [Desc (ustr ''ArticleDate'')] art = None
          \<and> find [Desc (ustr ''Journal''), Child (ustr ''JournalIssue''), Child (ustr ''PubDate'')] art
              = None
        \<longrightarrow> pub_date_of art = ustr ''N/A'')
     \<and> format_date n =
         (if y \<noteq> [] \<and> m \<noteq> [] \<and> d \<noteq> [] then y @ ustr ''-'' @ m @ ustr ''-'' @ d
          else if y \<noteq> [] \<and> m \<noteq> [] \<and> d = [] then y @ ustr ''-'' @ m
          else if y \<noteq> [] \<and> m = [] \<and> d = [] then y
          else if y = [] \<and> m = [] \<and> d = [] then ustr ''N/A''
          else str_join (ustr ''-'') (filter (\<lambda>p. p \<noteq> []) [y, m, d]))"
  unfolding y_def m_def d_def
  by (auto simp: emitted_row_date pub_date_of_def date_node_of_def format_date_def Let_def py_or_Some)

theorem publication_date_format_witness:
  "map_option Publication_Date
     (emitted_row lib0
        (record_of (ustr ''Sample'')
           [journal_date [leaf ''Year'' (ustr ''2023''), leaf ''Month'' (ustr ''Jan'')]] [jane]))
   = Some (ustr ''2023-Jan'')"
proof -
  let ?n = "node ''PubDate'' [leaf ''Year'' (ustr ''2023''), leaf ''Month'' (ustr ''Jan'')]"
  let ?art = "record_of (ustr ''Sample'')
           [journal_date [leaf ''Year'' (ustr ''2023''), leaf ''Month'' (ustr ''Jan'')]] [jane]"
  obtain r where r: "emitted_row lib0 ?art = Some r"
    by (cases "emitted_row lib0 ?art") (simp_all, code_simp)
  have f: "find [Desc (ustr ''ArticleDate'')] ?art = None
      \<and> find [Desc (ustr ''Journal''), Child (ustr ''JournalIssue''), Child (ustr ''PubDate'')] ?art
          = Some ?n"
    by code_simp
  have y: "py_or (findtext [Child (ustr ''Year'')] ?n) [] = ustr ''2023''"
    and m: "py_or (findtext [Child (ustr ''Month'')] ?n) [] = ustr ''Jan''"
    and d: "py_or (findtext [Child (ustr ''Day'')] ?n) [] = []"
    by code_simp+
  have j: "ustr ''2023'' @ ustr ''-'' @ ustr ''Jan'' = ustr ''2023-Jan''" by (simp add: ustr_def)
  have ne: "ustr ''2023'' \<noteq> []" "ustr ''Jan'' \<noteq> []" by (simp_all add: ustr_def)
  from publication_date_format [of l ?art r ?n for l] r f
  show ?thesis by (simp add: y m d j ne)
qed

lemma find_Some_findall: "find path e = Some n \<Longrightarrow> findall path e \<noteq> []"
  by (auto simp: find_def split: list.splits)

lemma findtext_None: "findall path e = [] \<Longrightarrow> findtext path e = None"
  by (simp add: findtext_def find_def)

text \<open>
  C9. When the record has an article-level date element with no \<open>Year\<close>, \<open>Month\<close> or
  \<open>Day\<close> below it, that element is the date element all the same: the publication date
  is \<open>N/A\<close>, whatever the journal-issue-level date holds.
\<close>

theorem empty_article_date_no_fallback:
  assumes "find [Desc (ustr ''ArticleDate'')] art = Some n"
    and "findall [Child (ustr ''Year'')] n = []"
    and "findall [Child (ustr ''Month'')] n = []"
    and "findall [Child (ustr ''Day'')] n = []"
  shows "date_node_of art = Some n \<and> pub_date_of art = ustr ''N/A''
    \<and> (emitted_row l art = Some r \<longrightarrow> Publication_Date r = ustr ''N/A'')"
proof -
  from assms(1) have dn: "date_node_of art = Some n" by (simp add: date_node_of_def)
  from assms(2-4) have "format_date n = ustr ''N/A''"
    by (simp add: format_date_def findtext_None py_or_def ustr_def)
  with dn have "pub_date_of art = ustr ''N/A''" by (simp add: pub_date_of_def)
  with dn show ?thesis by (auto dest: emitted_row_date)
qed

theorem empty_article_date_no_fallback_witness:
  "map_option format_date
     (find [Desc (ustr ''Journal''), Child (ustr ''JournalIssue''), Child (ustr ''PubDate'')]
        (record_of (ustr ''Sample'') [node ''ArticleDate'' [], full_journal_date] [jane]))
     = Some (ustr ''2023-01-15'')
   \<and> pub_date_of (record_of (ustr ''Sample'') [node ''ArticleDate'' [], full_journal_date] [jane])
     = ustr ''N/A''
   \<and> map_option Publication_Date
        (emitted_row lib0 (record_of (ustr ''Sample'') [node ''ArticleDate'' [], full_journal_date] [jane]))
     = Some (ustr ''N/A'')"
proof -
  let ?art = "record_of (ustr ''Sample'') [node ''ArticleDate'' [], full_journal_date] [jane]"
  let ?n = "node ''ArticleDate'' []"
  have j: "map_option format_date
      (find [Desc (ustr ''Journal''), Child (ustr ''JournalIssue''), Child (ustr ''PubDate'')] ?art)
      = Some (ustr ''2023-01-15'')"
    by code_simp
  have a: "find [Desc (ustr ''ArticleDate'')] ?art = Some ?n" by code_simp
  have y: "findall [Child (ustr ''Year'')] ?n = []" by code_simp
  have m: "findall [Child (ustr ''Month'')] ?n = []" by code_simp
  have d: "findall [Child (ustr ''Day'')] ?n = []" by code_simp
  obtain r where r: "emitted_row lib0 ?art = Some r"
    by (cases "emitted_row lib0 ?art") (simp_all, code_simp)
  from empty_article_date_no_fallback [OF a y m d, of lib0 r] r j
  show ?thesis by simp
qed

section \<open>The rows of a batch\<close>

lemma lstrip_placeholder: "length (lstrip placeholder) = 5"
  by code_simp

lemma shorten_200:
  "shorten l t 200 = Inr (str_join [0x0A] (wrap_loop 200 (split_chunks l (collapse t)) []))"
  by (simp add: shorten_def fill_def wrap_chunks_def lstrip_placeholder)

lemma emitted_row_None_scan:
  "emitted_row l art = None \<longleftrightarrow> non_acad_authors (scan_authors (is_company_affil l) l art) = []"
  by (simp add: emitted_row_def article_step_def Let_def shorten_200)

lemma article_step_emitted:
  "article_step l rows art = Inr (rows @ (case emitted_row l art of None \<Rightarrow> [] | Some r \<Rightarrow> [r]))"
  by (simp add: emitted_row_def article_step_def Let_def shorten_200)

lemma articles_loop_rows:
  "articles_loop l rows arts = Inr (rows @ List.map_filter (emitted_row l) arts)"
  by (induction arts arbitrary: rows)
     (auto simp: article_step_emitted List.map_filter_simps split: option.splits)

lemma has_company_author_visits:
  "has_company_author l art \<longleftrightarrow> (\<exists>v \<in> set (visits art). is_company_affil l (snd v))"
  by (auto simp: has_company_author_def visits_def list_ex_iff)

lemma emitted_row_None_iff: "emitted_row l art = None \<longleftrightarrow> \<not> has_company_author l art"
  by (auto simp: emitted_row_None_scan scan_authors_names has_company_author_visits filter_empty_conv)

lemma length_map_filter:
  "length (List.map_filter f xs) = length (filter (\<lambda>x. f x \<noteq> None) xs)"
  by (simp add: List.map_filter_def)

text \<open>
  C2. For a chunk that decodes to a root element, \<open>parse_articles\<close> returns the rows that
  its records emit, in the order of the records, and a record emits a row exactly when one
  of its authors has an affiliation classified "company". A record with no such author
  adds nothing to the rows, so there are as many rows as records with a company author.
\<close>

theorem parse_articles_rows:
  assumes "fromstring xml_chunk = Inr root"
  shows "parse_articles fromstring l xml_chunk
           = Inr (List.map_filter (emitted_row l) (findall [Desc (ustr ''PubmedArticle'')] root))
     \<and> (\<forall>art. emitted_row l art \<noteq> None \<longleftrightarrow> has_company_author l art)
     \<and> length (List.map_filter (emitted_row l) (findall [Desc (ustr ''PubmedArticle'')] root))
         = length (filter (has_company_author l) (findall [Desc (ustr ''PubmedArticle'')] root))"
  using assms
  by (simp add: parse_articles_def parse_root_def articles_loop_rows emitted_row_None_iff
      length_map_filter)

theorem parse_articles_rows_witness:
  "parse_articles (\<lambda>chunk. Inr two_records) lib0 (ustr ''<PubmedArticleSet/>'')
     = Inr [\<lparr>PubmedID = Some (ustr ''123''), Title = ustr ''Sample'',
             Publication_Date = ustr ''N/A'',
             Non_academic_Authors = ustr ''Jane Doe'',
             Company_Affiliations = ustr ''Acme Biotech Inc., Boston'',
             Corresponding_Author_Email = ustr ''N/A''\<rparr>]
   \<and> \<not> has_company_author lib0 (record_of (ustr ''Sample'') [] [academic_author])
   \<and> has_company_author lib0 (record_of (ustr ''Sample'') [] [jane, academic_author])"
proof -
  have rows: "List.map_filter (emitted_row lib0) (findall [Desc (ustr ''PubmedArticle'')] two_records)
      = [\<lparr>PubmedID = Some (ustr ''123''), Title = ustr ''Sample'',
             Publication_Date = ustr ''N/A'',
             Non_academic_Authors = ustr ''Jane Doe'',
             Company_Affiliations = ustr ''Acme Biotech Inc., Boston'',
             Corresponding_Author_Email = ustr ''N/A''\<rparr>]"
    by code_simp
  have n: "emitted_row lib0 (record_of (ustr ''Sample'') [] [academic_author]) = None"
    by code_simp
  have y: "emitted_row lib0 (record_of (ustr ''Sample'') [] [jane, academic_author]) \<noteq> None"
    by code_simp
  have d: "(\<lambda>chunk. Inr two_records) (ustr ''<PubmedArticleSet/>'') = (Inr two_records :: error + element)"
    by simp
  note t = parse_articles_rows [OF d, of lib0]
  from t rows have p: "parse_articles (\<lambda>chunk. Inr two_records) lib0 (ustr ''<PubmedArticleSet/>'')
     = Inr [\<lparr>PubmedID = Some (ustr ''123''), Title = ustr ''Sample'',
             Publication_Date = ustr ''N/A'',
             Non_academic_Authors = ustr ''Jane Doe'',
             Company_Affiliations = ustr ''Acme Biotech Inc., Boston'',
             Corresponding_Author_Email = ustr ''N/A''\<rparr>]"
    by simp
  from t have iff: "emitted_row lib0 art \<noteq> None \<longleftrightarrow> has_company_author lib0 art" for art
    by blast
  from p n y iff [of "record_of (ustr ''Sample'') [] [academic_author]"]
    iff [of "record_of (ustr ''Sample'') [] [jane, academic_author]"]
  show ?thesis by simp
qed

section \<open>Trimming\<close>

lemma str_strip_Nil_iff: "str_strip s = [] \<longleftrightarrow> (\<forall>x \<in> set s. isspace x)"
proof -
  have "str_strip s = [] \<longleftrightarrow> (\<forall>x \<in> set (dropWhile isspace s). isspace x)"
    by (simp add: str_strip_def dropWhile_eq_Nil_conv)
  also have "\<dots> \<longleftrightarrow> dropWhile isspace s = []"
  proof
    assume a: "\<forall>x \<in> set (dropWhile isspace s). isspace x"
    show "dropWhile isspace s = []"
    proof (rule ccontr)
      assume n: "dropWhile isspace s \<noteq> []"
      then have "\<not> isspace (hd (dropWhile isspace s))" by (rule hd_dropWhile)
      moreover from n have "hd (dropWhile isspace s) \<in> set (dropWhile isspace s)" by simp
      ultimately show False using a by blast
    qed
  next
    assume "dropWhile isspace s = []"
    then show "\<forall>x \<in> set (dropWhile isspace s). isspace x" by (simp only: list.set ball_empty)
  qed
  also have "\<dots> \<longleftrightarrow> (\<forall>x \<in> set s. isspace x)" by (simp add: dropWhile_eq_Nil_conv)
  finally show ?thesis .
qed

lemma str_strip_is_trim: "is_trim_of (str_strip s) s"
proof -
  define a where "a = takeWhile isspace s"
  define u where "u = dropWhile isspace s"
  define b where "b = rev (takeWhile isspace (rev u))"
  define t where "t = rev (dropWhile isspace (rev u))"
  have s: "s = a @ u" by (simp add: a_def u_def)
  have u: "u = t @ b"
    unfolding t_def b_def by (metis rev_append rev_rev_ident takeWhile_dropWhile_id)
  have t: "str_strip s = t" by (simp add: str_strip_def t_def u_def)
  have sa: "list_all isspace a" by (auto simp: a_def list_all_iff dest: set_takeWhileD)
  have sb: "list_all isspace b" by (auto simp: b_def list_all_iff dest: set_takeWhileD)
  have e: "\<not> isspace (hd t) \<and> \<not> isspace (last t)" if ne: "t \<noteq> []"
  proof
    from ne have r: "dropWhile isspace (rev u) \<noteq> []" by (simp add: t_def)
    then have "\<not> isspace (hd (dropWhile isspace (rev u)))" by (rule hd_dropWhile)
    with r show "\<not> isspace (last t)" by (simp add: t_def last_rev)
    from ne u have un: "u \<noteq> []" by auto
    then have "\<not> isspace (hd u)" unfolding u_def by (rule hd_dropWhile)
    with ne u show "\<not> isspace (hd t)" by simp
  qed
  from s u have "s = a @ t @ b" by simp
  with sa sb e show ?thesis unfolding is_trim_of_def t by blast
qed

lemma is_trim_of_unique:
  assumes "is_trim_of t s"
  shows "t = str_strip s"
proof -
  from assms obtain a b where s: "s = a @ t @ b" and sa: "list_all isspace a"
    and sb: "list_all isspace b" and e: "t = [] \<or> (\<not> isspace (hd t) \<and> \<not> isspace (last t))"
    unfolding is_trim_of_def by blast
  have d1: "dropWhile isspace s = dropWhile isspace (t @ b)"
    unfolding s by (rule dropWhile_append2) (use sa in \<open>simp add: list_all_iff\<close>)
  show ?thesis
  proof (cases "t = []")
    case True
    with s sa sb have "\<forall>x \<in> set s. isspace x" by (auto simp: list_all_iff)
    then have "str_strip s = []" by (simp only: str_strip_Nil_iff)
    with True show ?thesis by simp
  next
    case False
    with e have h: "\<not> isspace (hd t)" and la: "\<not> isspace (last t)" by simp_all
    from False h have "dropWhile isspace (t @ b) = t @ b" by (cases t) simp_all
    with d1 have d2: "dropWhile isspace s = t @ b" by simp
    have "dropWhile isspace (rev b @ rev t) = dropWhile isspace (rev t)"
      by (rule dropWhile_append2) (use sb in \<open>simp add: list_all_iff\<close>)
    moreover from False la have "dropWhile isspace (rev t) = rev t"
      by (cases "rev t") (simp_all add: last_rev [symmetric] hd_rev)
    ultimately have "dropWhile isspace (rev (t @ b)) = rev t" by simp
    with d2 show ?thesis by (simp add: str_strip_def)
  qed
qed

lemma is_trim_of_iff: "is_trim_of t s \<longleftrightarrow> t = str_strip s"
  using str_strip_is_trim is_trim_of_unique by blast

lemma is_trim_of_Nil_iff: "is_trim_of [] s \<longleftrightarrow> list_all isspace s"
  by (simp add: is_trim_of_iff eq_commute [of "[]"] str_strip_Nil_iff list_all_iff)

lemma name_of_raw: "name_of a = str_strip (raw_name_of a)"
  by (simp add: name_of_def raw_name_of_def Let_def)

lemma affil_of_raw: "affil_of i = str_strip (raw_affil_of i)"
  by (simp add: affil_of_def raw_affil_of_def)

lemma visits_raw: "visits art = map (\<lambda>v. (str_strip (fst v), str_strip (snd v))) (raw_visits art)"
  by (simp add: visits_def raw_visits_def map_concat o_def name_of_raw affil_of_raw)

section \<open>Affiliations that are empty after trimming\<close>

lemma first_email_Nil: "first_email l [] = None"
  by (simp add: first_email_def EMAIL_RE_def)

lemma affil_step_empty:
  "affil_of info = [] \<Longrightarrow>
     affil_step c l name s info = (if no_email (corr_email s) then s\<lparr>corr_email := None\<rparr> else s)"
  by (simp add: affil_step_def Let_def first_email_Nil)

lemma foldl_affil_step_empty:
  "\<forall>info \<in> set infos. affil_of info = [] \<Longrightarrow>
     non_acad_authors (foldl (affil_step c l name) s infos) = non_acad_authors s
     \<and> company_affils (foldl (affil_step c l name) s infos) = company_affils s"
  by (induction infos arbitrary: s) (simp_all add: affil_step_empty)

lemma company_affils_nonempty: "[] \<notin> set (company_affils (scan_authors c l art))"
  by (auto simp: scan_authors_affils_with)

lemma emitted_row_affils:
  "emitted_row l art = Some r \<Longrightarrow>
     Company_Affiliations r = join_sorted_set (company_affils (scan_authors (is_company_affil l) l art))"
  by (auto simp: emitted_row_def article_step_def Let_def split: if_splits sum.splits list.splits)

lemma emitted_row_names:
  "emitted_row l art = Some r \<Longrightarrow>
     Non_academic_Authors r = join_sorted_set (non_acad_authors (scan_authors (is_company_affil l) l art))"
  by (auto simp: emitted_row_def article_step_def Let_def split: if_splits sum.splits list.splits)

lemma blank_affil: "is_trim_of [] (raw_affil_of info) \<longleftrightarrow> affil_of info = []"
  by (auto simp: is_trim_of_iff affil_of_raw)

text \<open>
  C10. An affiliation that is empty after trimming is not handed to the classifier: the
  step of the scan on it gives the same result for every classifier, one that answers
  "company" for the empty string included, and this result changes neither the authors nor
  the affiliations collected (only the e-mail scan has read the empty string). So the
  affiliations collected never hold the empty string, whatever the classifier, and the
  company-affiliation field of a row is the join of these; an author whose affiliations are
  all empty after trimming adds no name and no affiliation; and a record whose authors are
  all such collects no author and emits no row.
\<close>

theorem empty_affiliation_ignored:
  "(is_trim_of [] (raw_affil_of info) \<longrightarrow>
      affil_step classify l name s info
        = (if no_email (corr_email s) then s\<lparr>corr_email := None\<rparr> else s))
   \<and> [] \<notin> set (company_affils (scan_authors classify l art))
   \<and> (emitted_row l art = Some r \<longrightarrow>
        Company_Affiliations r
          = str_join (ustr ''; '')
              (sorted_list_of_set (set (company_affils (scan_authors (is_company_affil l) l art)))))
   \<and> ((\<forall>info \<in> set (findall [Desc (ustr ''AffiliationInfo'')] author).
          is_trim_of [] (raw_affil_of info)) \<longrightarrow>
        non_acad_authors (author_step classify l s author) = non_acad_authors s
        \<and> company_affils (author_step classify l s author) = company_affils s)
   \<and> ((\<forall>author \<in> set (findall [Desc (ustr ''Author'')] art).
         \<forall>info \<in> set (findall [Desc (ustr ''AffiliationInfo'')] author).
           is_trim_of [] (raw_affil_of info)) \<longrightarrow>
        non_acad_authors (scan_authors classify l art) = [] \<and> emitted_row l art = None)"
proof (intro conjI impI)
  assume "is_trim_of [] (raw_affil_of info)"
  then have "affil_of info = []" by (simp add: blank_affil)
  then show "affil_step classify l name s info
      = (if no_email (corr_email s) then s\<lparr>corr_email := None\<rparr> else s)"
    by (rule affil_step_empty)
next
  show "[] \<notin> set (company_affils (scan_authors classify l art))" by (rule company_affils_nonempty)
next
  assume "emitted_row l art = Some r"
  then show "Company_Affiliations r
      = str_join (ustr ''; '')
          (sorted_list_of_set (set (company_affils (scan_authors (is_company_affil l) l art))))"
    by (simp add: emitted_row_affils join_sorted_set_def)
next
  assume "\<forall>info \<in> set (findall [Desc (ustr ''AffiliationInfo'')] author).
      is_trim_of [] (raw_affil_of info)"
  then have "\<forall>info \<in> set (findall [Desc (ustr ''AffiliationInfo'')] author). affil_of info = []"
    by (simp add: blank_affil)
  then show "non_acad_authors (author_step classify l s author) = non_acad_authors s"
    and "company_affils (author_step classify l s author) = company_affils s"
    by (simp_all add: author_step_def foldl_affil_step_empty)
next
  assume a: "\<forall>author \<in> set (findall [Desc (ustr ''Author'')] art).
         \<forall>info \<in> set (findall [Desc (ustr ''AffiliationInfo'')] author).
           is_trim_of [] (raw_affil_of info)"
  then have v: "\<forall>v \<in> set (visits art). snd v = []" by (auto simp: visits_def blank_affil)
  then show "non_acad_authors (scan_authors classify l art) = []"
    by (simp add: scan_authors_names_with filter_empty_conv)
  from v is_company_affil_Nil have "\<not> has_company_author l art"
    by (auto simp: has_company_author_visits)
  then show "emitted_row l art = None" by (simp add: emitted_row_None_iff)
qed

theorem empty_affiliation_ignored_witness:
  "affil_step (\<lambda>a. True) lib0 (ustr ''Ann Lee'') scan0
      (node ''AffiliationInfo'' [leaf ''Affiliation'' [0xA0, 0x2003]]) = scan0
   \<and> non_acad_authors (author_step (\<lambda>a. True) lib0 scan0 blank_author) = []
   \<and> company_affils (author_step (\<lambda>a. True) lib0 scan0 blank_author) = []
   \<and> non_acad_authors
        (scan_authors (\<lambda>a. True) lib0 (record_of (ustr ''Sample'') [] [blank_author, bare_author])) = []
   \<and> emitted_row lib0 (record_of (ustr ''Sample'') [] [blank_author, bare_author]) = None
   \<and> map_option Company_Affiliations
        (emitted_row lib0 (record_of (ustr ''Sample'') [] [blank_author, jane]))
      = Some (ustr ''Acme Biotech Inc., Boston'')"
proof -
  let ?info = "node ''AffiliationInfo'' [leaf ''Affiliation'' [0xA0, 0x2003]]"
  let ?art = "record_of (ustr ''Sample'') [] [blank_author, bare_author]"
  let ?art2 = "record_of (ustr ''Sample'') [] [blank_author, jane]"
  have e: "is_trim_of [] (raw_affil_of ?info)"
    unfolding is_trim_of_Nil_iff by code_simp
  have b: "\<forall>info \<in> set (findall [Desc (ustr ''AffiliationInfo'')] blank_author).
      is_trim_of [] (raw_affil_of info)"
    unfolding is_trim_of_Nil_iff by code_simp
  have a: "\<forall>author \<in> set (findall [Desc (ustr ''Author'')] ?art).
         \<forall>info \<in> set (findall [Desc (ustr ''AffiliationInfo'')] author).
           is_trim_of [] (raw_affil_of info)"
    unfolding is_trim_of_Nil_iff by code_simp
  obtain r where r: "emitted_row lib0 ?art2 = Some r"
    by (cases "emitted_row lib0 ?art2") (simp_all, code_simp)
  have j: "str_join (ustr ''; '')
      (sorted_list_of_set (set (company_affils (scan_authors (is_company_affil lib0) lib0 ?art2))))
      = ustr ''Acme Biotech Inc., Boston''"
    by code_simp
  note t1 = empty_affiliation_ignored
    [of ?info "\<lambda>a. True" lib0 "ustr ''Ann Lee''" scan0 ?art _ blank_author]
  note t2 = empty_affiliation_ignored [of ?info "is_company_affil lib0" lib0 _ _ ?art2 r]
  from t2 r j have c: "Company_Affiliations r = ustr ''Acme Biotech Inc., Boston''" by simp
  from t1 e b a c r show ?thesis by (simp add: scan0_def no_email_def)
qed

section \<open>The two joined fields of a row\<close>

lemma company_names_visits:
  "company_names l art = fst ` {v \<in> set (visits art). is_company_affil l (snd v)}"
  by (auto simp: company_names_def is_trim_of_iff visits_raw image_iff) (metis fst_conv snd_conv)+

lemma company_affiliations_visits:
  "company_affiliations l art = snd ` {v \<in> set (visits art). is_company_affil l (snd v)}"
  by (auto simp: company_affiliations_def is_trim_of_iff visits_raw image_iff) (metis fst_conv snd_conv)+

lemma mset_four: "mset [b2, j, b0, b1] = mset [j, b0, b1, b2]"
  by (simp add: ac_simps)

text \<open>
  C5. In a row, the field of the non-academic authors and the field of the company
  affiliations are each the join by \<open>"; "\<close> of a list that is sorted (strings are
  compared code point by code point) and has no entry twice. The entries of the first are
  the trimmed names of the pairs of name and affiliation whose trimmed affiliation the
  classifier answers "company" for, and the entries of the second are these trimmed
  affiliations; a string has one trimmed form, so that two names or two affiliations are
  one entry exactly when their trimmed forms are the same string. Two records that list
  the same pairs of name and affiliation, each as many times, in any order, get the same
  two fields.
\<close>

theorem joined_fields_sorted_distinct:
  assumes "emitted_row l art = Some r"
  shows "(\<exists>names affs.
            Non_academic_Authors r = str_join (ustr ''; '') names \<and> sorted names \<and> distinct names
          \<and> set names = company_names l art
          \<and> Company_Affiliations r = str_join (ustr ''; '') affs \<and> sorted affs \<and> distinct affs
          \<and> set affs = company_affiliations l art)
     \<and> (\<forall>s. \<exists>t. is_trim_of t s \<and> (\<forall>t'. is_trim_of t' s \<longrightarrow> t' = t))
     \<and> (\<forall>art' r'. mset (raw_visits art') = mset (raw_visits art) \<and> emitted_row l art' = Some r'
          \<longrightarrow> Non_academic_Authors r' = Non_academic_Authors r
              \<and> Company_Affiliations r' = Company_Affiliations r)"
proof (intro conjI allI impI)
  let ?C = "filter (\<lambda>v. is_company_affil l (snd v)) (visits art)"
  let ?names = "sorted_list_of_set (set (map fst ?C))"
  let ?affs = "sorted_list_of_set (set (map snd ?C))"
  have n: "Non_academic_Authors r = str_join (ustr ''; '') ?names"
    using emitted_row_names [OF assms] by (simp add: join_sorted_set_def scan_authors_names)
  have a: "Company_Affiliations r = str_join (ustr ''; '') ?affs"
    using emitted_row_affils [OF assms] by (simp add: join_sorted_set_def scan_authors_affils)
  have sn: "set ?names = company_names l art"
    and sa: "set ?affs = company_affiliations l art"
    by (simp_all add: company_names_visits company_affiliations_visits)
  have so: "sorted ?names" "distinct ?names" "sorted ?affs" "distinct ?affs" by simp_all
  from n a sn sa so show "\<exists>names affs.
            Non_academic_Authors r = str_join (ustr ''; '') names \<and> sorted names \<and> distinct names
          \<and> set names = company_names l art
          \<and> Company_Affiliations r = str_join (ustr ''; '') affs \<and> sorted affs \<and> distinct affs
          \<and> set affs = company_affiliations l art"
    by blast
next
  fix s :: str
  show "\<exists>t. is_trim_of t s \<and> (\<forall>t'. is_trim_of t' s \<longrightarrow> t' = t)"
    using str_strip_is_trim [of s] is_trim_of_unique [of _ s] by blast
next
  fix art' r'
  assume h: "mset (raw_visits art') = mset (raw_visits art) \<and> emitted_row l art' = Some r'"
  then have "set (raw_visits art') = set (raw_visits art)" by (auto dest: mset_eq_setD)
  then have s: "set (visits art') = set (visits art)" by (simp add: visits_raw)
  from h have r': "emitted_row l art' = Some r'" by simp
  from r' have "Non_academic_Authors r'
      = join_sorted_set (non_acad_authors (scan_authors (is_company_affil l) l art'))"
    by (rule emitted_row_names)
  also have "\<dots> = join_sorted_set (non_acad_authors (scan_authors (is_company_affil l) l art))"
    by (simp add: join_sorted_set_def scan_authors_names s)
  also have "\<dots> = Non_academic_Authors r"
    using emitted_row_names [OF assms] by simp
  finally show "Non_academic_Authors r' = Non_academic_Authors r" .
  from r' have "Company_Affiliations r'
      = join_sorted_set (company_affils (scan_authors (is_company_affil l) l art'))"
    by (rule emitted_row_affils)
  also have "\<dots> = join_sorted_set (company_affils (scan_authors (is_company_affil l) l art))"
    by (simp add: join_sorted_set_def scan_authors_affils s)
  also have "\<dots> = Company_Affiliations r"
    using emitted_row_affils [OF assms] by simp
  finally show "Company_Affiliations r' = Company_Affiliations r" .
qed

theorem joined_fields_sorted_distinct_witness:
  "map_option (\<lambda>r. (Non_academic_Authors r, Company_Affiliations r))
     (emitted_row lib0 (record_of (ustr ''Sample'') [] [jane, bob, bob_again]))
     = Some (ustr ''Bob Ray; Jane Doe'', ustr ''Acme Biotech Inc., Boston; Zeta Pharma Ltd'')
   \<and> map_option (\<lambda>r. (Non_academic_Authors r, Company_Affiliations r))
     (emitted_row lib0 (record_of (ustr ''Other title'') [] [bob_again, jane, bob]))
     = Some (ustr ''Bob Ray; Jane Doe'', ustr ''Acme Biotech Inc., Boston; Zeta Pharma Ltd'')
   \<and> raw_visits (record_of (ustr ''Sample'') [] [jane, bob, bob_again])
     = [(ustr ''Jane Doe'', ustr ''Acme Biotech Inc., Boston''),
        (ustr ''Bob Ray'', [0xA0] @ ustr ''Zeta Pharma Ltd ''),
        (ustr ''Bob Ray'', ustr ''Acme Biotech Inc., Boston''),
        (ustr '' Bob Ray'', ustr ''Zeta Pharma Ltd'')]"
proof -
  let ?a1 = "record_of (ustr ''Sample'') [] [jane, bob, bob_again]"
  let ?a2 = "record_of (ustr ''Other title'') [] [bob_again, jane, bob]"
  let ?j = "(ustr ''Jane Doe'', ustr ''Acme Biotech Inc., Boston'')"
  let ?b0 = "(ustr ''Bob Ray'', [0xA0] @ ustr ''Zeta Pharma Ltd '')"
  let ?b1 = "(ustr ''Bob Ray'', ustr ''Acme Biotech Inc., Boston'')"
  let ?b2 = "(ustr '' Bob Ray'', ustr ''Zeta Pharma Ltd'')"
  have v1: "raw_visits ?a1 = [?j, ?b0, ?b1, ?b2]" by code_simp
  have v2: "raw_visits ?a2 = [?b2, ?j, ?b0, ?b1]" by code_simp
  have m: "mset (raw_visits ?a2) = mset (raw_visits ?a1)" unfolding v1 v2 by (rule mset_four)
  have f1: "map_option (\<lambda>r. (Non_academic_Authors r, Company_Affiliations r)) (emitted_row lib0 ?a1)
     = Some (ustr ''Bob Ray; Jane Doe'', ustr ''Acme Biotech Inc., Boston; Zeta Pharma Ltd'')"
    by code_simp
  then obtain r1 where r1: "emitted_row lib0 ?a1 = Some r1" by auto
  obtain r2 where r2: "emitted_row lib0 ?a2 = Some r2"
    by (cases "emitted_row lib0 ?a2") (simp_all, code_simp)
  from joined_fields_sorted_distinct [OF r1] m r2
  have "Non_academic_Authors r2 = Non_academic_Authors r1 \<and> Company_Affiliations r2 = Company_Affiliations r1"
    by blast
  with f1 r1 r2 v1 show ?thesis by simp
qed

section \<open>The e-mail address of a row\<close>

lemma first_email_None_iff: "first_email l a = None \<longleftrightarrow> \<not> has_match l EMAIL_RE a"
  by (simp add: first_email_def search_None_iff)

lemma first_found_None_iff:
  "first_found l affs = None \<longleftrightarrow> (\<forall>a \<in> set affs. \<not> has_match l EMAIL_RE a)"
  by (induction affs) (auto simp: first_email_None_iff [symmetric] split: option.splits)

lemma first_found_Some:
  "first_found l affs = Some e \<Longrightarrow>
     \<exists>k < length affs. (\<forall>j < k. \<not> has_match l EMAIL_RE (affs ! j)) \<and> first_email l (affs ! k) = Some e"
proof (induction affs)
  case Nil
  then show ?case by simp
next
  case (Cons a as)
  show ?case
  proof (cases "first_email l a")
    case (Some e')
    with Cons.prems have "first_email l ((a # as) ! 0) = Some e" by simp
    then show ?thesis by (intro exI [of _ 0]) simp
  next
    case None
    with Cons.prems have "first_found l as = Some e" by simp
    from Cons.IH [OF this] obtain k where k: "k < length as"
      "\<forall>j < k. \<not> has_match l EMAIL_RE (as ! j)" "first_email l (as ! k) = Some e"
      by blast
    from None have na: "\<not> has_match l EMAIL_RE a" by (simp add: first_email_None_iff)
    have "\<forall>j < Suc k. \<not> has_match l EMAIL_RE ((a # as) ! j)"
    proof (intro allI impI)
      fix j assume "j < Suc k"
      with k(2) na show "\<not> has_match l EMAIL_RE ((a # as) ! j)" by (cases j) auto
    qed
    with k show ?thesis by (intro exI [of _ "Suc k"]) simp
  qed
qed

lemma emitted_row_email:
  "emitted_row l art = Some r \<Longrightarrow>
     Corresponding_Author_Email r
       = py_or (corr_email (scan_authors (is_company_affil l) l art)) (ustr ''N/A'')"
  by (auto simp: emitted_row_def article_step_def Let_def split: if_splits sum.splits list.splits)

lemma first_found_nonempty: "first_found l affs \<noteq> Some []"
  by (induction affs) (auto simp: first_email_nonempty split: option.splits)

text \<open>
  C7, as the claim states it, fails: a record whose affiliations hold no e-mail address
  gets \<open>N/A\<close>, not \<open>unknown\<close>.
\<close>

theorem corresponding_email_counterexample:
  "map_option Corresponding_Author_Email (emitted_row lib0 (record_of (ustr ''Sample'') [] [jane]))
     = Some (ustr ''N/A'')"
  by code_simp

text \<open>
  C7, amended. The e-mail field of a row is the first e-mail address found in the trimmed
  affiliations of the record read in the order of the scan, and \<open>N/A\<close> when none of them
  has a match of the e-mail pattern. The first address found is in the first affiliation
  that has a match, and there it is a match that no other match starts before.
\<close>

theorem corresponding_email_first_found:
  "(emitted_row l art = Some r \<longrightarrow>
      Corresponding_Author_Email r
        = (case first_found l (map snd (visits art)) of None \<Rightarrow> (ustr ''N/A'') | Some e \<Rightarrow> e))
   \<and> (first_found l affs = None \<longleftrightarrow> (\<forall>a \<in> set affs. \<not> has_match l EMAIL_RE a))
   \<and> (first_found l affs = Some e \<longrightarrow>
        (\<exists>k < length affs. (\<forall>j < k. \<not> has_match l EMAIL_RE (affs ! j))
           \<and> first_email l (affs ! k) = Some e
           \<and> leftmost_match l EMAIL_RE (affs ! k) e))"
proof (intro conjI impI)
  assume "emitted_row l art = Some r"
  then have "Corresponding_Author_Email r = py_or (first_found l (map snd (visits art))) (ustr ''N/A'')"
    by (simp add: emitted_row_email scan_authors_email)
  then show "Corresponding_Author_Email r
        = (case first_found l (map snd (visits art)) of None \<Rightarrow> (ustr ''N/A'') | Some e \<Rightarrow> e)"
    using first_found_nonempty [of l "map snd (visits art)"]
    by (auto simp: py_or_def split: option.splits)
next
  show "first_found l affs = None \<longleftrightarrow> (\<forall>a \<in> set affs. \<not> has_match l EMAIL_RE a)"
    by (rule first_found_None_iff)
next
  assume "first_found l affs = Some e"
  from first_found_Some [OF this] obtain k where k: "k < length affs"
    "\<forall>j < k. \<not> has_match l EMAIL_RE (affs ! j)" "first_email l (affs ! k) = Some e"
    by blast
  from k(3) have "leftmost_match l EMAIL_RE (affs ! k) e"
    by (simp add: first_email_def search_leftmost)
  with k show "\<exists>k < length affs. (\<forall>j < k. \<not> has_match l EMAIL_RE (affs ! j))
           \<and> first_email l (affs ! k) = Some e
           \<and> leftmost_match l EMAIL_RE (affs ! k) e"
    by blast
qed

theorem corresponding_email_first_found_witness:
  "map_option Corresponding_Author_Email
     (emitted_row lib0 (record_of (ustr ''Sample'') [] [jane, carl]))
     = Some (ustr ''carl.moe@beta-corp.com'')
   \<and> first_found lib0 (map snd (visits (record_of (ustr ''Sample'') [] [jane, carl])))
     = Some (ustr ''carl.moe@beta-corp.com'')
   \<and> leftmost_match lib0 EMAIL_RE
       (ustr ''Beta Corp, Basel. Contact: carl.moe@beta-corp.com or office@beta-corp.org'')
       (ustr ''carl.moe@beta-corp.com'')"
proof -
  let ?art = "record_of (ustr ''Sample'') [] [jane, carl]"
  obtain r where r: "emitted_row lib0 ?art = Some r"
    by (cases "emitted_row lib0 ?art") (simp_all, code_simp)
  have v: "map snd (visits ?art) =
     [(ustr ''Acme Biotech Inc., Boston''),
      (ustr ''Beta Corp, Basel. Contact: carl.moe@beta-corp.com or office@beta-corp.org''),
      (ustr ''Gamma GmbH, gamma@gamma.de'')]"
    by code_simp
  have f: "first_found lib0 (map snd (visits ?art)) = Some (ustr ''carl.moe@beta-corp.com'')"
    by code_simp
  have e0: "first_email lib0 (ustr ''Acme Biotech Inc., Boston'') = None" by code_simp
  note t = corresponding_email_first_found
    [of lib0 ?art r "map snd (visits ?art)" "ustr ''carl.moe@beta-corp.com''"]
  from t f obtain k where k: "k < length (map snd (visits ?art))"
    "\<forall>j < k. \<not> has_match lib0 EMAIL_RE (map snd (visits ?art) ! j)"
    "first_email lib0 (map snd (visits ?art) ! k) = Some (ustr ''carl.moe@beta-corp.com'')"
    "leftmost_match lib0 EMAIL_RE (map snd (visits ?art) ! k) (ustr ''carl.moe@beta-corp.com'')"
    by blast
  have g: "first_email lib0 (ustr ''Gamma GmbH, gamma@gamma.de'') = Some (ustr ''gamma@gamma.de'')" by code_simp
  have ne: "ustr ''gamma@gamma.de'' \<noteq> ustr ''carl.moe@beta-corp.com''" by code_simp
  have "k = 1"
  proof -
    from k(1) v have "k = 0 \<or> k = 1 \<or> k = 2" by auto
    with k(3) v e0 g ne show ?thesis by auto
  qed
  with k(4) v have "leftmost_match lib0 EMAIL_RE
       (ustr ''Beta Corp, Basel. Contact: carl.moe@beta-corp.com or office@beta-corp.org'')
       (ustr ''carl.moe@beta-corp.com'')" by simp
  with t r f show ?thesis by simp
qed

section \<open>The title of a row\<close>

lemma split_aux_words:
  "\<forall>x \<in> set acc. \<not> isspace x \<Longrightarrow>
     \<forall>w \<in> set (split_aux acc s). w \<noteq> [] \<and> (\<forall>x \<in> set w. \<not> isspace x)"
proof (induction s arbitrary: acc)
  case Nil
  then show ?case by simp
next
  case (Cons a s)
  have e: "\<forall>w \<in> set (split_aux [] s). w \<noteq> [] \<and> (\<forall>x \<in> set w. \<not> isspace x)"
    by (rule Cons.IH) simp
  show ?case
  proof (cases "isspace a")
    case True
    with e Cons.prems show ?thesis by auto
  next
    case False
    with Cons.prems have "\<forall>x \<in> set (acc @ [a]). \<not> isspace x" by simp
    from Cons.IH [OF this] False show ?thesis by simp
  qed
qed

lemma str_split_words: "w \<in> set (str_split s) \<Longrightarrow> w \<noteq> [] \<and> (\<forall>x \<in> set w. \<not> isspace x)"
  using split_aux_words [of "[]" s] by (simp add: str_split_def)

lemma isspace_space: "isspace 0x20"
  by code_simp

lemma ustr_space: "ustr '' '' = [0x20]"
  by code_simp

lemma join_words_collapsed:
  "\<forall>w \<in> set ws. w \<noteq> [] \<and> (\<forall>x \<in> set w. \<not> isspace x) \<Longrightarrow> collapsed (str_join (ustr '' '') ws)"
proof (induction ws)
  case Nil
  show ?case by (simp add: collapsed_def)
next
  case (Cons x ws)
  from Cons.prems have x: "x \<noteq> []" "\<forall>c \<in> set x. \<not> isspace c" by simp_all
  show ?case
  proof (cases ws)
    case Nil
    with x show ?thesis by (auto simp: collapsed_def)
  next
    case ys: (Cons y ys)
    from Cons have c: "collapsed (str_join (ustr '' '') (y # ys))" by (simp add: ys)
    from Cons.prems ys have y: "y \<noteq> []" by simp
    then have ne: "str_join (ustr '' '') (y # ys) \<noteq> []" by (cases ys) auto
    have j: "str_join (ustr '' '') (x # ws) = x @ (ustr '' '') @ str_join (ustr '' '') (y # ys)" by (simp add: ys)
    have "hd (x @ (ustr '' '') @ str_join (ustr '' '') (y # ys)) = hd x" using x by simp
    moreover have "last (x @ (ustr '' '') @ str_join (ustr '' '') (y # ys)) = last (str_join (ustr '' '') (y # ys))"
      using ne by simp
    moreover have "\<not> isspace (hd x)" "\<not> isspace (last x)" using x by simp_all
    ultimately show ?thesis using c x ne unfolding j collapsed_def by (auto simp: ustr_space)
  qed
qed

lemma collapsed_collapse: "collapsed (collapse t)"
  unfolding collapse_def by (rule join_words_collapsed) (use str_split_words in blast)

lemma tw_whitespace_isspace: "x \<in> set tw_whitespace \<Longrightarrow> isspace x"
  by (auto simp: tw_whitespace_def isspace_def)

lemma expandtabs_aux_id: "0x09 \<notin> set s \<Longrightarrow> expandtabs_aux ts col s = s"
  by (induction s arbitrary: col) auto

lemma munge_collapsed: "collapsed c \<Longrightarrow> munge_whitespace c = c"
proof -
  assume c: "collapsed c"
  have "isspace (0x09)" by code_simp
  with c have "0x09 \<notin> set c" by (auto simp: collapsed_def)
  then have "expandtabs 8 c = c" by (simp add: expandtabs_def expandtabs_aux_id)
  moreover have "map (\<lambda>x. if x \<in> set tw_whitespace then 0x20 else x) c = c"
    using c tw_whitespace_isspace by (intro map_idI) (auto simp: collapsed_def)
  ultimately show ?thesis by (simp add: munge_whitespace_def)
qed

lemma concat_filter_nonempty: "concat (filter (\<lambda>c. c \<noteq> []) xs) = concat xs"
  by (induction xs) auto

lemma split_chunks_collapsed:
  assumes "wordsep_law l" and "collapsed c"
  shows "concat (split_chunks l c) = c" and "[] \<notin> set (split_chunks l c)"
  using assms by (simp_all add: split_chunks_def concat_filter_nonempty munge_collapsed wordsep_law_def)

lemma wrap_loop_Nil: "wrap_loop width [] lines = lines"
  by (subst wrap_loop.simps) simp

lemma take_fitting_all:
  "length (concat cur) + length (concat chunks) \<le> width \<Longrightarrow>
     take_fitting width cur chunks = (cur @ chunks, [])"
  by (induction chunks arbitrary: cur) simp_all

lemma take_fitting_split:
  "take_fitting width cur chunks = (cur', rest) \<Longrightarrow> length (concat cur) \<le> width \<Longrightarrow>
     (\<exists>taken. cur' = cur @ taken \<and> chunks = taken @ rest)
     \<and> length (concat cur') \<le> width
     \<and> (rest \<noteq> [] \<longrightarrow> width < length (concat cur') + length (hd rest))"
proof (induction chunks arbitrary: cur)
  case Nil
  then show ?case by simp
next
  case (Cons c chunks)
  show ?case
  proof (cases "length (concat cur) + length c \<le> width")
    case True
    with Cons.prems have t: "take_fitting width (cur @ [c]) chunks = (cur', rest)" by simp
    from True have "length (concat (cur @ [c])) \<le> width" by simp
    from Cons.IH [OF t this] show ?thesis by auto
  next
    case False
    with Cons.prems show ?thesis by auto
  qed
qed

lemma rfind_hyphen_less: "rfind_hyphen chunk stop = Some i \<Longrightarrow> i < stop"
proof -
  assume a: "rfind_hyphen chunk stop = Some i"
  then obtain rest where
    "filter (\<lambda>i. chunk ! i = 0x2D) (rev [0 ..< min stop (length chunk)]) = i # rest"
    by (auto simp: rfind_hyphen_def split: list.splits)
  then have "i \<in> set (filter (\<lambda>i. chunk ! i = 0x2D) (rev [0 ..< min stop (length chunk)]))"
    by simp
  then show ?thesis by simp
qed

lemma long_word_end_le:
  "0 < width \<Longrightarrow> long_word_end chunk cur_len width \<le> width - cur_len"
  by (auto simp: long_word_end_def Let_def split: option.splits dest: rfind_hyphen_less)

lemma last_concat_last: "xs \<noteq> [] \<Longrightarrow> last xs \<noteq> [] \<Longrightarrow> last (concat xs) = last (last xs)"
proof -
  assume a: "xs \<noteq> []" "last xs \<noteq> []"
  then have "concat xs = concat (butlast xs) @ last xs"
    by (metis append_butlast_last_id concat.simps(1,2) concat_append append_Nil2)
  with a(2) show ?thesis by simp
qed

lemma add_placeholder_Some:
  "add_placeholder width cur_line = Some l \<Longrightarrow>
     \<exists>k. l = concat (take k cur_line) @ placeholder \<and> length l \<le> width"
proof (induction width cur_line rule: add_placeholder.induct)
  case (1 width cur_line)
  show ?case
  proof (cases "cur_line = []")
    case True
    with "1.prems" show ?thesis by (simp add: add_placeholder.simps [of width "[]"])
  next
    case ne: False
    show ?thesis
    proof (cases "str_strip (last cur_line) \<noteq> [] \<and> length (concat cur_line) + length placeholder \<le> width")
      case True
      with ne "1.prems" have "l = concat (take (length cur_line) cur_line) @ placeholder \<and> length l \<le> width"
        by (auto simp: add_placeholder.simps [of width cur_line])
      then show ?thesis by blast
    next
      case False
      with ne "1.prems" have "add_placeholder width (butlast cur_line) = Some l"
        by (auto simp: add_placeholder.simps [of width cur_line])
      from "1.IH" [OF ne False this] obtain k where
        k: "l = concat (take k (butlast cur_line)) @ placeholder" "length l \<le> width" by blast
      have "take k (butlast cur_line) = take (min k (length cur_line - 1)) cur_line"
        by (simp add: butlast_conv_take min.commute)
      with k show ?thesis by metis
    qed
  qed
qed

lemma last_chunk_not_blank:
  assumes "chunks \<noteq> []" and "[] \<notin> set chunks" and "collapsed (concat chunks)"
  shows "str_strip (last chunks) \<noteq> []"
proof -
  from assms(1,2) have ne: "last chunks \<noteq> []" by (metis last_in_set)
  with assms(1) have l: "last (concat chunks) = last (last chunks)" by (rule last_concat_last)
  from assms(1) ne have "concat chunks \<noteq> []" by (metis concat_eq_Nil_conv last_in_set)
  with assms(3) l have "\<not> isspace (last (last chunks))" by (simp add: collapsed_def)
  moreover from ne have "last (last chunks) \<in> set (last chunks)" by simp
  ultimately show ?thesis unfolding str_strip_Nil_iff by blast
qed

lemma wrap_loop_fits:
  assumes "[] \<notin> set chunks" and "collapsed (concat chunks)" and "length (concat chunks) \<le> width"
  shows "wrap_loop width chunks [] = (if chunks = [] then [] else [concat chunks])"
proof (cases "chunks = []")
  case True
  then show ?thesis by (simp add: wrap_loop_Nil)
next
  case False
  from assms(3) have tf: "take_fitting width [] chunks = (chunks, [])"
    using take_fitting_all [of "[]" chunks width] by simp
  from False assms(1,2) have nb: "str_strip (last chunks) \<noteq> []" by (rule last_chunk_not_blank)
  from tf nb False have wl: "wrap_line width False chunks = (chunks, [])"
    by (simp add: wrap_line_def)
  have "wrap_loop width chunks [] = wrap_loop width [] [concat chunks]"
    using False wl assms(3) by (subst wrap_loop.simps) simp
  with False show ?thesis by (simp add: wrap_loop_Nil)
qed

lemma wrap_line_overflow:
  assumes ne: "[] \<notin> set chunks" and col: "collapsed (concat chunks)"
    and big: "width < length (concat chunks)" and w: "0 < width"
  shows "\<exists>cur_line rest. wrap_line width False chunks = (cur_line, rest)
     \<and> cur_line \<noteq> [] \<and> rest \<noteq> [] \<and> str_strip (last rest) \<noteq> []
     \<and> (\<exists>q. concat chunks = concat cur_line @ q)"
proof -
  from big have cne: "chunks \<noteq> []" by auto
  from big have cc: "concat chunks \<noteq> []" by (metis list.size(3) not_less0)
  obtain cur chunks2 where tf: "take_fitting width [] chunks = (cur, chunks2)"
    by (cases "take_fitting width [] chunks") auto
  from take_fitting_split [OF tf] have sp: "chunks = cur @ chunks2"
    and cl: "length (concat cur) \<le> width"
    and ov: "chunks2 \<noteq> [] \<longrightarrow> width < length (concat cur) + length (hd chunks2)"
    by auto
  from sp cl big have c2: "chunks2 \<noteq> []" by auto
  then obtain h t where ht: "chunks2 = h # t" by (cases chunks2) auto
  from ne sp ht have hne: "h \<noteq> []" by auto
  define e where "e = long_word_end h (length (concat cur)) width"
  define cur_line2 where "cur_line2 = (if width < length h then cur @ [take e h] else cur)"
  define chunks3 where "chunks3 = (if width < length h then drop e h # t else chunks2)"
  define cur_line3 where "cur_line3 =
    (if cur_line2 \<noteq> [] \<and> str_strip (last cur_line2) = [] then butlast cur_line2 else cur_line2)"
  have wl: "wrap_line width False chunks = (cur_line3, chunks3)"
    using tf ht by (simp add: wrap_line_def Let_def cur_line3_def cur_line2_def chunks3_def e_def)
  have e_less: "e < length h" if "width < length h"
    using long_word_end_le [OF w, of h "length (concat cur)"] that unfolding e_def by linarith
  have whole: "concat cur_line2 @ concat chunks3 = concat chunks"
    by (simp add: cur_line2_def chunks3_def sp ht)
  have c3: "chunks3 \<noteq> []" by (simp add: chunks3_def ht)
  have c3ne: "[] \<notin> set chunks3"
    using ne sp ht e_less by (auto simp: chunks3_def)
  have lastc: "last chunks3 \<noteq> []" using c3 c3ne by (metis last_in_set)
  have c3c: "concat chunks3 \<noteq> []"
    using c3 lastc by (metis concat_eq_Nil_conv last_in_set)
  have "last (concat cur_line2 @ concat chunks3) = last (concat chunks3)"
    by (rule last_appendR [OF c3c])
  with whole have "last (concat chunks3) = last (concat chunks)" by simp
  moreover have "last (concat chunks3) = last (last chunks3)"
    using c3 lastc by (rule last_concat_last)
  moreover from cc col have "\<not> isspace (last (concat chunks))" unfolding collapsed_def by blast
  ultimately have "\<not> isspace (last (last chunks3))" by simp
  moreover from lastc have "last (last chunks3) \<in> set (last chunks3)" by simp
  ultimately have nb3: "str_strip (last chunks3) \<noteq> []" unfolding str_strip_Nil_iff by blast
  have hd2: "cur_line2 \<noteq> [] \<and> hd cur_line2 \<noteq> [] \<and> hd (hd cur_line2) = hd (concat chunks)"
  proof (cases cur)
    case Nil
    with ov c2 ht have long: "width < length h" by simp
    from Nil have "0 < e" unfolding e_def using long_word_end_pos [of h width] by simp
    with hne have "take e h \<noteq> []" "hd (take e h) = hd h" by (cases h; simp)+
    with Nil long sp ht hne show ?thesis by (simp add: cur_line2_def)
  next
    case (Cons x xs)
    with ne sp have "x \<noteq> []" by auto
    with Cons sp show ?thesis by (simp add: cur_line2_def)
  qed
  from cc col have "\<not> isspace (hd (concat chunks))" unfolding collapsed_def by blast
  with hd2 have "\<not> isspace (hd (hd cur_line2))" by simp
  moreover from hd2 have "hd (hd cur_line2) \<in> set (hd cur_line2)" by (metis hd_in_set)
  ultimately have nbh: "str_strip (hd cur_line2) \<noteq> []" unfolding str_strip_Nil_iff by blast
  have l3: "cur_line3 \<noteq> []"
  proof (cases "str_strip (last cur_line2) = []")
    case True
    with nbh have "last cur_line2 \<noteq> hd cur_line2" by auto
    with hd2 have "butlast cur_line2 \<noteq> []"
      by (cases cur_line2) (auto split: if_splits)
    with True hd2 show ?thesis by (simp add: cur_line3_def)
  next
    case False
    with hd2 show ?thesis by (simp add: cur_line3_def)
  qed
  have "\<exists>q. concat cur_line2 = concat cur_line3 @ q"
  proof (cases "cur_line2 \<noteq> [] \<and> str_strip (last cur_line2) = []")
    case True
    then have "concat cur_line2 = concat (butlast cur_line2) @ last cur_line2"
      by (metis append_butlast_last_id concat.simps(1,2) concat_append append_Nil2)
    with True show ?thesis by (auto simp: cur_line3_def)
  next
    case False
    then show ?thesis by (auto simp: cur_line3_def)
  qed
  then obtain q where "concat cur_line2 = concat cur_line3 @ q" by blast
  with whole have "concat chunks = concat cur_line3 @ (q @ concat chunks3)" by simp
  with wl l3 c3 nb3 show ?thesis by blast
qed

lemma wrap_loop_overflow:
  assumes ne: "[] \<notin> set chunks" and col: "collapsed (concat chunks)"
    and big: "width < length (concat chunks)" and w: "length (lstrip placeholder) \<le> width"
  shows "\<exists>l. wrap_loop width chunks [] = [l] \<and> length l \<le> width
     \<and> (l = lstrip placeholder \<or> (\<exists>p q. concat chunks = p @ q \<and> l = p @ placeholder))"
proof -
  from w have w0: "0 < width" by (simp add: lstrip_placeholder)
  from wrap_line_overflow [OF ne col big w0] obtain cur_line rest q where
    wl: "wrap_line width False chunks = (cur_line, rest)" and cl: "cur_line \<noteq> []"
    and r: "rest \<noteq> []" and nb: "str_strip (last rest) \<noteq> []"
    and pre: "concat chunks = concat cur_line @ q"
    by blast
  from nb have single: "\<not> (length rest = 1 \<and> str_strip (rest ! 0) = [])"
    by (cases rest) auto
  from big have cne: "chunks \<noteq> []" by auto
  have eq: "wrap_loop width chunks [] =
      (case add_placeholder width cur_line of Some l \<Rightarrow> [l] | None \<Rightarrow> [lstrip placeholder])"
    using cne wl cl r single by (subst wrap_loop.simps) (auto split: option.splits)
  show ?thesis
  proof (cases "add_placeholder width cur_line")
    case None
    with eq w show ?thesis by simp
  next
    case (Some l)
    from add_placeholder_Some [OF this] obtain k where
      k: "l = concat (take k cur_line) @ placeholder" "length l \<le> width" by blast
    have "concat cur_line = concat (take k cur_line) @ concat (drop k cur_line)"
      by (metis append_take_drop_id concat_append)
    with pre have "concat chunks = concat (take k cur_line) @ (concat (drop k cur_line) @ q)"
      by simp
    with k Some eq show ?thesis by auto
  qed
qed

lemma wordsep_law_lib0: "wordsep_law lib0"
proof -
  have "concat (simple_split t) = t" for t
    by (induction t) (auto split: list.splits)
  then show ?thesis by (simp add: wordsep_law_def lib0_def)
qed

lemma length_join_split_aux:
  "length (str_join (ustr '' '') (split_aux acc s)) \<le> length acc + length s"
proof (induction s arbitrary: acc)
  case Nil
  show ?case by simp
next
  case (Cons c s)
  have j: "length (str_join (ustr '' '') (w # ws)) \<le> length w + 1 + length (str_join (ustr '' '') ws)" for w ws
    by (cases ws) (simp_all add: ustr_space)
  show ?case
  proof (cases "isspace c")
    case True
    show ?thesis
    proof (cases "acc = []")
      case True
      with \<open>isspace c\<close> Cons.IH [of "[]"] show ?thesis by simp
    next
      case False
      with \<open>isspace c\<close> have "split_aux acc (c # s) = acc # split_aux [] s" by simp
      with j [of acc "split_aux [] s"] Cons.IH [of "[]"] show ?thesis by simp
    qed
  next
    case False
    with Cons.IH [of "acc @ [c]"] show ?thesis by simp
  qed
qed

lemma length_str_strip: "length (str_strip s) \<le> length s"
proof -
  have "length (str_strip s) \<le> length (dropWhile isspace s)"
    unfolding str_strip_def by (metis length_dropWhile_le length_rev)
  also have "\<dots> \<le> length s" by (rule length_dropWhile_le)
  finally show ?thesis .
qed

lemma length_collapse: "length (collapse t) \<le> length t"
  using length_join_split_aux [of "[]" "str_strip t"] length_str_strip [of t]
  by (simp add: collapse_def str_split_def)

lemma shorten_fits:
  assumes "wordsep_law l" and "length (collapse t) \<le> 200"
  shows "shorten l t 200 = Inr (collapse t)"
proof -
  let ?chunks = "split_chunks l (collapse t)"
  from assms(1) collapsed_collapse have c: "concat ?chunks = collapse t" and ne: "[] \<notin> set ?chunks"
    by (rule split_chunks_collapsed)+
  from c collapsed_collapse [of t] have col: "collapsed (concat ?chunks)" by simp
  from c assms(2) have "length (concat ?chunks) \<le> 200" by simp
  from wrap_loop_fits [OF ne col this]
  have wl: "wrap_loop 200 ?chunks [] = (if ?chunks = [] then [] else [concat ?chunks])" .
  have "str_join [0x0A] (wrap_loop 200 ?chunks []) = concat ?chunks"
  proof (cases "?chunks = []")
    case True
    then have "concat ?chunks = []" by (simp only: concat.simps)
    with wl True show ?thesis by simp
  next
    case False
    with wl show ?thesis by (simp only: if_False str_join.simps)
  qed
  with c have "str_join [0x0A] (wrap_loop 200 ?chunks []) = collapse t" by (simp only:)
  then show ?thesis by (simp only: shorten_200)
qed

lemma placeholder_eval: "placeholder = (ustr '' [...]'')" "lstrip (ustr '' [...]'') = (ustr ''[...]'')"
  by code_simp+

lemma shorten_overflow:
  assumes "wordsep_law l" and "200 < length (collapse t)"
  shows "\<exists>s. shorten l t 200 = Inr s \<and> length s \<le> 200
     \<and> (s = (ustr ''[...]'') \<or> (\<exists>p q. collapse t = p @ q \<and> s = p @ (ustr '' [...]'')))"
proof -
  let ?chunks = "split_chunks l (collapse t)"
  from assms(1) collapsed_collapse have c: "concat ?chunks = collapse t" and ne: "[] \<notin> set ?chunks"
    by (rule split_chunks_collapsed)+
  from c collapsed_collapse [of t] have col: "collapsed (concat ?chunks)" by simp
  from c assms(2) have big: "200 < length (concat ?chunks)" by simp
  have w: "length (lstrip placeholder) \<le> 200" by (simp add: lstrip_placeholder)
  from wrap_loop_overflow [OF ne col big w] obtain ln where
    ln: "wrap_loop 200 ?chunks [] = [ln]" "length ln \<le> 200"
    "ln = lstrip placeholder \<or> (\<exists>p q. concat ?chunks = p @ q \<and> ln = p @ placeholder)"
    by blast
  from ln(1) have s: "shorten l t 200 = Inr ln" by (simp add: shorten_200)
  from ln(3) have "ln = (ustr ''[...]'') \<or> (\<exists>p q. collapse t = p @ q \<and> ln = p @ (ustr '' [...]''))"
    unfolding c placeholder_eval .
  with s ln(2) show ?thesis by (intro exI [of _ ln] conjI)
qed

lemma emitted_row_title:
  "emitted_row l art = Some r \<Longrightarrow>
     shorten l (py_or (findtext [Desc (ustr ''ArticleTitle'')] art) (ustr ''N/A'')) 200 = Inr (Title r)"
  by (auto simp: emitted_row_def article_step_def Let_def split: if_splits sum.splits list.splits)

text \<open>
  C4, as the claim states it, fails. A title within the budget that has two spaces in a
  row, or two no-break spaces \<open>U+00A0\<close>, comes out with one space, so the step is not
  the identity there; and a title beyond the budget whose white space collapses to a text
  within the budget comes out with no marker. On these titles the chunks are the same
  for every separator that cuts at white space, and \<open>shorten_fits\<close> gives the same
  results for every separator of \<open>wordsep_law\<close>.
\<close>

theorem title_truncation_counterexample:
  "length (ustr ''A  study'') \<le> 200
   \<and> shorten lib0 (ustr ''A  study'') 200 = Inr (ustr ''A study'')
   \<and> map_option Title (emitted_row lib0 (record_of (ustr ''A  study'') [] [jane])) = Some (ustr ''A study'')
   \<and> shorten lib0 (ustr ''A'' @ [0xA0, 0xA0] @ ustr ''study'') 200 = Inr (ustr ''A study'')
   \<and> 200 < length ((ustr ''A'') @ replicate 200 0x20 @ (ustr ''study''))
   \<and> shorten lib0 ((ustr ''A'') @ replicate 200 0x20 @ (ustr ''study'')) 200 = Inr (ustr ''A study'')"
  by code_simp

text \<open>
  C4, amended. The truncation step never raises. It first collapses the white space of the
  title (white space at both ends dropped, every other run of white space replaced by one
  space). When the collapsed title has at most 200 characters, which is so for every title
  of at most 200 characters, the title of the row is the collapsed title: the step is the
  identity on a title of at most 200 characters that collapsing leaves as it is. When the
  collapsed title has more than 200 characters, the title of the row has at most 200
  characters and is the marker \<open>[...]\<close>, alone or after a beginning of the collapsed
  title and a space.
\<close>

theorem title_truncation:
  assumes "wordsep_law l"
  shows "(\<exists>s. shorten l title 200 = Inr s)
     \<and> (length (collapse title) \<le> 200 \<longrightarrow> shorten l title 200 = Inr (collapse title))
     \<and> (length title \<le> 200 \<longrightarrow> shorten l title 200 = Inr (collapse title))
     \<and> (length title \<le> 200 \<and> collapse title = title \<longrightarrow> shorten l title 200 = Inr title)
     \<and> (200 < length (collapse title) \<longrightarrow>
          (\<exists>s. shorten l title 200 = Inr s \<and> length s \<le> 200
             \<and> (s = (ustr ''[...]'') \<or> (\<exists>p q. collapse title = p @ q \<and> s = p @ (ustr '' [...]'')))))
     \<and> (emitted_row l art = Some r \<longrightarrow>
          shorten l (py_or (findtext [Desc (ustr ''ArticleTitle'')] art) (ustr ''N/A'')) 200 = Inr (Title r))"
proof (intro conjI impI)
  show "\<exists>s. shorten l title 200 = Inr s" by (simp add: shorten_200)
next
  assume "length (collapse title) \<le> 200"
  with assms show "shorten l title 200 = Inr (collapse title)" by (rule shorten_fits)
next
  assume "length title \<le> 200"
  with length_collapse [of title] have "length (collapse title) \<le> 200" by simp
  with assms show "shorten l title 200 = Inr (collapse title)" by (rule shorten_fits)
next
  assume a: "length title \<le> 200 \<and> collapse title = title"
  then have "length (collapse title) \<le> 200" by simp
  with assms have "shorten l title 200 = Inr (collapse title)" by (rule shorten_fits)
  with a show "shorten l title 200 = Inr title" by simp
next
  assume "200 < length (collapse title)"
  with assms show "\<exists>s. shorten l title 200 = Inr s \<and> length s \<le> 200
             \<and> (s = (ustr ''[...]'') \<or> (\<exists>p q. collapse title = p @ q \<and> s = p @ (ustr '' [...]'')))"
    by (rule shorten_overflow)
next
  assume "emitted_row l art = Some r"
  then show "shorten l (py_or (findtext [Desc (ustr ''ArticleTitle'')] art) (ustr ''N/A'')) 200 = Inr (Title r)"
    by (rule emitted_row_title)
qed

theorem title_truncation_witness:
  "shorten lib0 (ustr ''Sample title'') 200 = Inr (ustr ''Sample title'')
   \<and> 200 < length (collapse long_title)
   \<and> shorten lib0 long_title 200 = Inr (str_join (ustr '' '') (replicate 39 (ustr ''word'')) @ (ustr '' [...]''))
   \<and> length (str_join (ustr '' '') (replicate 39 (ustr ''word'')) @ (ustr '' [...]'')) = 200
   \<and> map_option Title (emitted_row lib0 (record_of long_title [] [jane]))
      = Some (str_join (ustr '' '') (replicate 39 (ustr ''word'')) @ (ustr '' [...]''))"
proof -
  have c1: "length (ustr ''Sample title'') \<le> 200 \<and> collapse (ustr ''Sample title'') = (ustr ''Sample title'')"
    by code_simp
  have c2: "200 < length (collapse long_title)" by code_simp
  have s2: "shorten lib0 long_title 200 = Inr (str_join (ustr '' '') (replicate 39 (ustr ''word'')) @ (ustr '' [...]''))"
    by code_simp
  have l2: "length (str_join (ustr '' '') (replicate 39 (ustr ''word'')) @ (ustr '' [...]'')) = 200" by code_simp
  have t2: "py_or (findtext [Desc (ustr ''ArticleTitle'')] (record_of long_title [] [jane])) (ustr ''N/A'') = long_title"
    by code_simp
  obtain r where r: "emitted_row lib0 (record_of long_title [] [jane]) = Some r"
    by (cases "emitted_row lib0 (record_of long_title [] [jane])") (simp_all, code_simp)
  from title_truncation [OF wordsep_law_lib0, of "ustr ''Sample title''" "record_of long_title [] [jane]" r]
    c1 c2 s2 l2 t2 r
  show ?thesis by simp
qed

section \<open>The batches of \<open>efetch\<close>\<close>

lemma ceil_div_step:
  fixes c m :: nat
  assumes "0 < c" and "0 < m"
  shows "(m + (c - 1)) div c = Suc ((m - c + (c - 1)) div c)"
proof (cases "c \<le> m")
  case True
  define a where "a = m - c + (c - 1)"
  from True have "m + (c - 1) = a + c" by (simp add: a_def)
  then have "(m + (c - 1)) div c = (a + c) div c" by simp
  also have "\<dots> = Suc (a div c)" using assms(1) div_add_self2 [of c a] by simp
  finally show ?thesis by (simp only: a_def)
next
  case False
  define a where "a = m - 1"
  from False assms have "m + (c - 1) = a + c" and "a < c" by (simp_all add: a_def)
  then have "(m + (c - 1)) div c = (a + c) div c" by simp
  also have "\<dots> = Suc (a div c)" using assms(1) div_add_self2 [of c a] by simp
  also have "\<dots> = Suc 0" using \<open>a < c\<close> by simp
  finally have 1: "(m + (c - 1)) div c = Suc 0" .
  from False assms(1) have "(m - c + (c - 1)) div c = 0" by simp
  with 1 show ?thesis by simp
qed

lemma plan_from_done: "\<not> start < length pmids \<Longrightarrow> plan_from pmids start = []"
proof -
  assume "\<not> start < length pmids"
  then have "length pmids - start = 0" by simp
  then have "(length pmids - start + (BATCH_SIZE - 1)) div BATCH_SIZE = 0"
    by (simp add: BATCH_SIZE_def)
  then show ?thesis by (simp add: plan_from_def)
qed

lemma plan_from_step:
  assumes "start < length pmids"
  shows "plan_from pmids start = batch_at pmids start # plan_from pmids (start + BATCH_SIZE)"
proof -
  let ?n = "(length pmids - (start + BATCH_SIZE) + (BATCH_SIZE - 1)) div BATCH_SIZE"
  have "0 < BATCH_SIZE" by (simp add: BATCH_SIZE_def)
  moreover from assms have "0 < length pmids - start" by simp
  ultimately have "(length pmids - start + (BATCH_SIZE - 1)) div BATCH_SIZE
      = Suc ((length pmids - start - BATCH_SIZE + (BATCH_SIZE - 1)) div BATCH_SIZE)"
    by (rule ceil_div_step)
  then have n: "(length pmids - start + (BATCH_SIZE - 1)) div BATCH_SIZE = Suc ?n"
    by (simp only: diff_diff_left)
  have u: "[0 ..< Suc ?n] = 0 # map Suc [0 ..< ?n]"
    by (simp only: upt_conv_Cons [OF zero_less_Suc] map_Suc_upt)
  have "map (\<lambda>i. batch_at pmids (start + i * BATCH_SIZE)) (map Suc [0 ..< ?n])
      = map (\<lambda>i. batch_at pmids (start + BATCH_SIZE + i * BATCH_SIZE)) [0 ..< ?n]"
    by (simp only: map_map o_def mult_Suc add.assoc)
  then show ?thesis
    unfolding plan_from_def n u by (simp only: list.map mult_zero_left add_0_right)
qed

lemma concat_plan_from: "concat (plan_from pmids start) = drop start pmids"
proof (induction "length pmids - start" arbitrary: start rule: less_induct)
  case less
  show ?case
  proof (cases "start < length pmids")
    case True
    then have "length pmids - (start + BATCH_SIZE) < length pmids - start"
      by (simp add: BATCH_SIZE_def)
    from less [OF this] have "concat (plan_from pmids (start + BATCH_SIZE)) = drop (start + BATCH_SIZE) pmids" .
    moreover have "drop (start + BATCH_SIZE) pmids = drop BATCH_SIZE (drop start pmids)"
      by (simp only: drop_drop add.commute)
    ultimately have "concat (plan_from pmids start)
        = take BATCH_SIZE (drop start pmids) @ drop BATCH_SIZE (drop start pmids)"
      using True by (simp only: plan_from_step batch_at_def concat.simps)
    then show ?thesis by (simp only: append_take_drop_id)
  next
    case False
    then show ?thesis by (simp add: plan_from_done)
  qed
qed

lemma plan_from_batches:
  assumes "b \<in> set (plan_from pmids start)"
  shows "b \<noteq> [] \<and> length b \<le> BATCH_SIZE"
proof -
  let ?n = "(length pmids - start + (BATCH_SIZE - 1)) div BATCH_SIZE"
  from assms obtain i where i: "i < ?n" "b = batch_at pmids (start + i * BATCH_SIZE)"
    by (auto simp: plan_from_def)
  have c: "0 < BATCH_SIZE" by (simp add: BATCH_SIZE_def)
  have "i * BATCH_SIZE < length pmids - start"
  proof (rule ccontr)
    assume n: "\<not> i * BATCH_SIZE < length pmids - start"
    from i(1) have "Suc i \<le> ?n" by simp
    then have "Suc i * BATCH_SIZE \<le> ?n * BATCH_SIZE" by (rule mult_le_mono1)
    also have "\<dots> \<le> length pmids - start + (BATCH_SIZE - 1)" by simp
    finally have "i * BATCH_SIZE + BATCH_SIZE \<le> length pmids - start + (BATCH_SIZE - 1)" by simp
    with n c show False by linarith
  qed
  then have "start + i * BATCH_SIZE < length pmids" by linarith
  with i(2) c show ?thesis by (simp add: batch_at_def)
qed

lemma efetch_from_issue:
  "efetch_from fetch_get pmids start = issue fetch_get (map (str_join (ustr '','')) (plan_from pmids start))"
proof (induction "length pmids - start" arbitrary: start rule: less_induct)
  case less
  show ?case
  proof (cases "start < length pmids")
    case False
    then have "efetch_next fetch_get pmids start = StopIteration" by (simp add: efetch_next_def)
    then have "efetch_from fetch_get pmids start = \<lparr>requests = [], batches = [], raised = None\<rparr>"
      by (subst efetch_from.simps) simp
    with False show ?thesis by (simp add: plan_from_done)
  next
    case True
    then have "length pmids - (start + BATCH_SIZE) < length pmids - start"
      by (simp add: BATCH_SIZE_def)
    note ih = less [OF this]
    from True have p: "map (str_join (ustr '','')) (plan_from pmids start)
        = request_at pmids start # map (str_join (ustr '','')) (plan_from pmids (start + BATCH_SIZE))"
      by (simp add: plan_from_step request_at_def)
    show ?thesis
    proof (cases "fetch_get (request_at pmids start)")
      case (Inl e)
      with True have "efetch_next fetch_get pmids start = Raise e" by (simp add: efetch_next_def)
      then have "efetch_from fetch_get pmids start
          = \<lparr>requests = [request_at pmids start], batches = [], raised = Some e\<rparr>"
        by (subst efetch_from.simps) simp
      with Inl show ?thesis by (simp add: p)
    next
      case (Inr body)
      with True have "efetch_next fetch_get pmids start = Yield body (start + BATCH_SIZE)"
        by (simp add: efetch_next_def)
      then have "efetch_from fetch_get pmids start
          = (let r = efetch_from fetch_get pmids (start + BATCH_SIZE)
             in r\<lparr>requests := request_at pmids start # requests r, batches := body # batches r\<rparr>)"
        by (subst efetch_from.simps) simp
      with Inr ih show ?thesis by (simp add: p)
    qed
  qed
qed

lemma issue_all_ok:
  "\<forall>q \<in> set qs. \<exists>txt. fetch_get q = Inr txt \<Longrightarrow>
     requests (issue fetch_get qs) = qs
     \<and> map Inr (batches (issue fetch_get qs)) = map fetch_get qs
     \<and> raised (issue fetch_get qs) = None"
  by (induction qs) (auto simp: Let_def)

lemma issue_prefix:
  "length (requests (issue fetch_get qs)) \<le> length qs
   \<and> requests (issue fetch_get qs) = take (length (requests (issue fetch_get qs))) qs
   \<and> length (batches (issue fetch_get qs)) \<le> length (requests (issue fetch_get qs))"
  by (induction qs) (auto simp: Let_def split: sum.splits)

lemma ceil_div_least:
  assumes "0 < c"
  shows "n \<le> ceil_div n c * c \<and> (\<forall>j. n \<le> j * c \<longrightarrow> ceil_div n c \<le> j)"
proof (intro conjI allI impI)
  define k where "k = (n + (c - 1)) div c"
  have "n + (c - 1) < c + c * k"
    unfolding k_def using assms by (rule dividend_less_times_div)
  with assms have "n \<le> k * c" by (simp add: mult.commute)
  then show "n \<le> ceil_div n c * c" by (simp only: ceil_div_def k_def)
next
  fix j assume "n \<le> j * c"
  with assms have "n + (c - 1) < Suc j * c" by simp
  then have "(n + (c - 1)) div c < Suc j" by (rule less_mult_imp_div_less)
  then show "ceil_div n c \<le> j" by (simp add: ceil_div_def)
qed

lemma length_batches_of: "length (batches_of pmids) = ceil_div (length pmids) BATCH_SIZE"
  by (simp add: batches_of_def plan_from_def ceil_div_def)

lemma efetch_issue:
  "efetch fetch_get pmids = issue fetch_get (map (str_join (ustr '','')) (batches_of pmids))"
  by (simp add: efetch_def batches_of_def efetch_from_issue)

text \<open>
  C6. The batches of \<open>efetch\<close> are consecutive slices of the identifiers in their order:
  put end to end they give the list back, none is empty, none has more than \<open>BATCH_SIZE\<close>
  (200) identifiers, and there are \<open>ceil(n / BATCH_SIZE)\<close> of them. The requests issued
  are always the first ones of this plan, one for each batch in order. When no request
  fails, every batch of the plan is requested and yielded: \<open>ceil(n / BATCH_SIZE)\<close>
  requests and as many batches. For no identifier there is no request and no batch.
\<close>

theorem efetch_batches:
  "concat (batches_of pmids) = pmids
   \<and> length (batches_of pmids) = ceil_div (length pmids) BATCH_SIZE
   \<and> BATCH_SIZE = 200
   \<and> length pmids \<le> ceil_div (length pmids) BATCH_SIZE * BATCH_SIZE
   \<and> (\<forall>j. length pmids \<le> j * BATCH_SIZE \<longrightarrow> ceil_div (length pmids) BATCH_SIZE \<le> j)
   \<and> (\<forall>b \<in> set (batches_of pmids). b \<noteq> [] \<and> length b \<le> BATCH_SIZE)
   \<and> requests (efetch fetch_get pmids)
       = take (length (requests (efetch fetch_get pmids))) (map (str_join (ustr '','')) (batches_of pmids))
   \<and> length (batches (efetch fetch_get pmids)) \<le> length (requests (efetch fetch_get pmids))
   \<and> length (requests (efetch fetch_get pmids)) \<le> length (batches_of pmids)
   \<and> ((\<forall>b \<in> set (batches_of pmids). \<exists>body. fetch_get (str_join (ustr '','') b) = Inr body) \<longrightarrow>
          requests (efetch fetch_get pmids) = map (str_join (ustr '','')) (batches_of pmids)
        \<and> map Inr (batches (efetch fetch_get pmids))
            = map (\<lambda>b. fetch_get (str_join (ustr '','') b)) (batches_of pmids)
        \<and> raised (efetch fetch_get pmids) = None
        \<and> length (requests (efetch fetch_get pmids)) = ceil_div (length pmids) BATCH_SIZE
        \<and> length (batches (efetch fetch_get pmids)) = ceil_div (length pmids) BATCH_SIZE)
   \<and> requests (efetch fetch_get []) = [] \<and> batches (efetch fetch_get []) = []
   \<and> raised (efetch fetch_get []) = None"
proof (intro conjI impI)
  let ?plan = "map (str_join (ustr '','')) (batches_of pmids)"
  show "concat (batches_of pmids) = pmids" by (simp add: batches_of_def concat_plan_from)
  show len: "length (batches_of pmids) = ceil_div (length pmids) BATCH_SIZE"
    by (rule length_batches_of)
  show "BATCH_SIZE = 200" by (rule BATCH_SIZE_def)
  have "0 < BATCH_SIZE" by (simp add: BATCH_SIZE_def)
  from ceil_div_least [OF this, of "length pmids"]
  show "length pmids \<le> ceil_div (length pmids) BATCH_SIZE * BATCH_SIZE"
    and "\<forall>j. length pmids \<le> j * BATCH_SIZE \<longrightarrow> ceil_div (length pmids) BATCH_SIZE \<le> j"
    by blast+
  show "\<forall>b \<in> set (batches_of pmids). b \<noteq> [] \<and> length b \<le> BATCH_SIZE"
    using plan_from_batches by (auto simp: batches_of_def)
  show "requests (efetch fetch_get pmids)
       = take (length (requests (efetch fetch_get pmids))) ?plan"
    using issue_prefix [of fetch_get ?plan] by (simp add: efetch_issue)
  show "length (batches (efetch fetch_get pmids)) \<le> length (requests (efetch fetch_get pmids))"
    using issue_prefix [of fetch_get ?plan] by (simp add: efetch_issue)
  show "length (requests (efetch fetch_get pmids)) \<le> length (batches_of pmids)"
    using issue_prefix [of fetch_get ?plan] by (simp add: efetch_issue)
  have e: "efetch fetch_get [] = \<lparr>requests = [], batches = [], raised = None\<rparr>"
    by (simp add: efetch_issue batches_of_def plan_from_done)
  from e show "requests (efetch fetch_get []) = []" by simp
  from e show "batches (efetch fetch_get []) = []" by simp
  from e show "raised (efetch fetch_get []) = None" by simp
  assume "\<forall>b \<in> set (batches_of pmids). \<exists>body. fetch_get (str_join (ustr '','') b) = Inr body"
  then have "\<forall>q \<in> set ?plan. \<exists>body. fetch_get q = Inr body" by simp
  from issue_all_ok [OF this]
  have r: "requests (efetch fetch_get pmids) = ?plan"
    and b: "map Inr (batches (efetch fetch_get pmids)) = map fetch_get ?plan"
    and n: "raised (efetch fetch_get pmids) = None"
    by (simp_all add: efetch_issue)
  from r show "requests (efetch fetch_get pmids) = ?plan" .
  from b show "map Inr (batches (efetch fetch_get pmids))
            = map (\<lambda>b. fetch_get (str_join (ustr '','') b)) (batches_of pmids)"
    by (simp add: o_def)
  from n show "raised (efetch fetch_get pmids) = None" .
  from r len show "length (requests (efetch fetch_get pmids)) = ceil_div (length pmids) BATCH_SIZE"
    by simp
  from b have "length (batches (efetch fetch_get pmids)) = length (batches_of pmids)"
    by (metis length_map)
  with len show "length (batches (efetch fetch_get pmids)) = ceil_div (length pmids) BATCH_SIZE"
    by simp
qed

theorem efetch_batches_witness:
  "length (requests (efetch Inr (replicate 401 (ustr ''7'')))) = 3
   \<and> length (batches (efetch Inr (replicate 401 (ustr ''7'')))) = 3
   \<and> raised (efetch Inr (replicate 401 (ustr ''7''))) = None
   \<and> map length (batches_of (replicate 401 (ustr ''7''))) = [200, 200, 1]"
proof -
  let ?ids = "replicate 401 (ustr ''7'')"
  have ok: "\<forall>b \<in> set (batches_of ?ids). \<exists>body. (Inr :: str \<Rightarrow> error + str) (str_join (ustr '','') b) = Inr body"
    by simp
  have c: "ceil_div (length ?ids) BATCH_SIZE = 3"
    by (simp add: BATCH_SIZE_def ceil_div_def)
  have m: "map length (batches_of ?ids) = [200, 200, 1]" by code_simp
  from efetch_batches [of ?ids Inr] ok c m show ?thesis by simp
qed

section \<open>The failures of \<open>fetch_papers\<close>\<close>

lemma fetch_loop_stages:
  "fetch_loop fetch_get fromstring l pmids start rows
     = run_stages (map (stage fetch_get fromstring l) (plan_from pmids start)) rows"
proof (induction "length pmids - start" arbitrary: start rows rule: less_induct)
  case less
  show ?case
  proof (cases "start < length pmids")
    case False
    then have "efetch_next fetch_get pmids start = StopIteration" by (simp add: efetch_next_def)
    then have "fetch_loop fetch_get fromstring l pmids start rows = Inr rows"
      by (subst fetch_loop.simps) simp
    with False show ?thesis by (simp add: plan_from_done)
  next
    case True
    then have "length pmids - (start + BATCH_SIZE) < length pmids - start"
      by (simp add: BATCH_SIZE_def)
    note ih = less [OF this]
    from True have p: "plan_from pmids start = batch_at pmids start # plan_from pmids (start + BATCH_SIZE)"
      by (rule plan_from_step)
    show ?thesis
    proof (cases "fetch_get (request_at pmids start)")
      case (Inl e)
      with True have "efetch_next fetch_get pmids start = Raise e" by (simp add: efetch_next_def)
      then have "fetch_loop fetch_get fromstring l pmids start rows = Inl e"
        by (subst fetch_loop.simps) simp
      with Inl show ?thesis by (simp add: p stage_def request_at_def)
    next
      case (Inr body)
      with True have n: "efetch_next fetch_get pmids start = Yield body (start + BATCH_SIZE)"
        by (simp add: efetch_next_def)
      show ?thesis
      proof (cases "parse_articles fromstring l body")
        case failed: (Inl e)
        with n have "fetch_loop fetch_get fromstring l pmids start rows = Inl e"
          by (subst fetch_loop.simps) simp
        with Inr failed show ?thesis by (simp add: p stage_def request_at_def)
      next
        case parsed: (Inr new_rows)
        with n have "fetch_loop fetch_get fromstring l pmids start rows
            = fetch_loop fetch_get fromstring l pmids (start + BATCH_SIZE) (rows @ new_rows)"
          by (subst fetch_loop.simps) simp
        with Inr parsed ih show ?thesis by (simp add: p stage_def request_at_def)
      qed
    qed
  qed
qed

lemma run_stages_first_failure:
  "k < length xs \<Longrightarrow> xs ! k = Inl e \<Longrightarrow> \<forall>j < k. \<exists>r. xs ! j = Inr r \<Longrightarrow>
     run_stages xs rows = Inl e"
proof (induction xs arbitrary: k rows)
  case Nil
  then show ?case by simp
next
  case (Cons x xs)
  show ?case
  proof (cases k)
    case 0
    with Cons.prems show ?thesis by simp
  next
    case (Suc k')
    with Cons.prems(3) have "\<exists>r. (x # xs) ! 0 = Inr r" by blast
    then obtain r where r: "x = Inr r" by auto
    from Cons.prems Suc have "k' < length xs" "xs ! k' = Inl e" by simp_all
    moreover have "\<forall>j < k'. \<exists>r. xs ! j = Inr r"
    proof (intro allI impI)
      fix j assume "j < k'"
      with Suc have "Suc j < k" by simp
      with Cons.prems(3) have "\<exists>r. (x # xs) ! Suc j = Inr r" by blast
      then show "\<exists>r. xs ! j = Inr r" by simp
    qed
    ultimately have "run_stages xs (rows @ r) = Inl e" by (rule Cons.IH)
    with r show ?thesis by simp
  qed
qed

lemma run_stages_Inl:
  "run_stages xs rows = Inl e \<Longrightarrow> Inl e \<in> set xs"
  by (induction xs arbitrary: rows) (auto split: sum.splits)

lemma run_stages_Inr:
  "run_stages xs rows = Inr out \<Longrightarrow> (\<forall>x \<in> set xs. \<exists>r. x = Inr r) \<and> out = rows @ rows_of xs"
proof (induction xs arbitrary: rows)
  case Nil
  then show ?case by simp
next
  case (Cons x xs)
  show ?case
  proof (cases x)
    case (Inl e)
    with Cons.prems show ?thesis by simp
  next
    case (Inr r)
    with Cons.prems have "run_stages xs (rows @ r) = Inr out" by simp
    from Cons.IH [OF this] Inr show ?thesis by simp
  qed
qed

lemma run_stages_failure:
  "Inl e' \<in> set xs \<Longrightarrow> \<exists>e. run_stages xs rows = Inl e"
  by (induction xs arbitrary: rows) (auto split: sum.splits)

lemma parse_articles_Inl: "parse_articles fromstring l xml = Inl e \<longleftrightarrow> fromstring xml = Inl e"
  by (auto simp: parse_articles_def parse_root_def articles_loop_rows split: sum.splits)

lemma stage_Inl:
  "stage fetch_get fromstring l b = Inl e \<longleftrightarrow>
     fetch_get (str_join (ustr '','') b) = Inl e
     \<or> (\<exists>xml. fetch_get (str_join (ustr '','') b) = Inr xml \<and> fromstring xml = Inl e)"
  by (auto simp: stage_def parse_articles_Inl split: sum.splits)

lemma fetch_papers_stages:
  "fetch_papers search_get fetch_get fromstring l query retmax debug =
     (case esearch search_get query retmax of
        Inl e \<Rightarrow> Inl e
      | Inr pmids \<Rightarrow> run_stages (map (stage fetch_get fromstring l) (batches_of pmids)) [])"
  by (simp add: fetch_papers_def fetch_loop_stages batches_of_def split: sum.splits)

text \<open>
  C8. A run of \<open>fetch_papers\<close> is the search followed by one stage for each batch, the
  fetch of the batch and the parse of what comes back, in the order of the batches. When the
  search fails, the run fails with the error of the search. When the stages before a stage
  succeed and this stage fails, in its fetch or in its parse, the run fails with the error
  of this stage, as it is. A stage fails exactly when its request fails or the decoder fails
  on the text fetched, with that error. When some stage fails the run returns no report;
  a run that returns a report has had every stage succeed and returns the rows of all the
  stages in order; and the error of a run that fails is the error of the search or of one
  of the stages.
\<close>

theorem fetch_papers_propagates:
  fixes search_get :: search_transport and fetch_get :: fetch_transport and fromstring :: decoder
    and l :: lib and query :: str and retmax :: int and debug :: bool
  defines "run \<equiv> fetch_papers search_get fetch_get fromstring l query retmax debug"
  shows "(esearch search_get query retmax = Inl e \<longrightarrow> run = Inl e)
     \<and> (esearch search_get query retmax = Inr pmids \<and> k < length (batches_of pmids)
          \<and> (\<forall>j < k. \<exists>rows. stage fetch_get fromstring l (batches_of pmids ! j) = Inr rows)
          \<and> stage fetch_get fromstring l (batches_of pmids ! k) = Inl e
        \<longrightarrow> run = Inl e)
     \<and> (stage fetch_get fromstring l b = Inl e \<longleftrightarrow>
          fetch_get (str_join (ustr '','') b) = Inl e
          \<or> (\<exists>xml. fetch_get (str_join (ustr '','') b) = Inr xml \<and> fromstring xml = Inl e))
     \<and> (esearch search_get query retmax = Inr pmids
          \<and> (\<exists>b' \<in> set (batches_of pmids). \<exists>e'. stage fetch_get fromstring l b' = Inl e')
        \<longrightarrow> (\<exists>e'. run = Inl e'))
     \<and> (run = Inr report \<longrightarrow>
          (\<exists>ids. esearch search_get query retmax = Inr ids
             \<and> (\<forall>b' \<in> set (batches_of ids). \<exists>rows. stage fetch_get fromstring l b' = Inr rows)
             \<and> report = rows_of (map (stage fetch_get fromstring l) (batches_of ids))))
     \<and> (run = Inl e \<longrightarrow>
          esearch search_get query retmax = Inl e
          \<or> (\<exists>ids. esearch search_get query retmax = Inr ids
                \<and> (\<exists>b' \<in> set (batches_of ids). stage fetch_get fromstring l b' = Inl e)))"
proof (intro conjI impI)
  let ?st = "stage fetch_get fromstring l"
  note run = run_def fetch_papers_stages
  show "run = Inl e" if "esearch search_get query retmax = Inl e"
    using that by (simp add: run)
  show "run = Inl e"
    if h: "esearch search_get query retmax = Inr pmids \<and> k < length (batches_of pmids)
          \<and> (\<forall>j < k. \<exists>rows. ?st (batches_of pmids ! j) = Inr rows)
          \<and> ?st (batches_of pmids ! k) = Inl e"
  proof -
    from h have k: "k < length (map ?st (batches_of pmids))" by simp
    from h have f: "map ?st (batches_of pmids) ! k = Inl e" by simp
    have "\<forall>j < k. \<exists>r. map ?st (batches_of pmids) ! j = Inr r"
    proof (intro allI impI)
      fix j assume "j < k"
      with h show "\<exists>r. map ?st (batches_of pmids) ! j = Inr r" by simp
    qed
    with k f have "run_stages (map ?st (batches_of pmids)) [] = Inl e"
      by (rule run_stages_first_failure)
    with h show ?thesis by (simp add: run)
  qed
  show "?st b = Inl e \<longleftrightarrow>
          fetch_get (str_join (ustr '','') b) = Inl e
          \<or> (\<exists>xml. fetch_get (str_join (ustr '','') b) = Inr xml \<and> fromstring xml = Inl e)"
    by (rule stage_Inl)
  show "\<exists>e'. run = Inl e'"
    if h: "esearch search_get query retmax = Inr pmids
          \<and> (\<exists>b' \<in> set (batches_of pmids). \<exists>e'. ?st b' = Inl e')"
  proof -
    from h obtain b' e' where "b' \<in> set (batches_of pmids)" "?st b' = Inl e'" by blast
    then have "Inl e' \<in> set (map ?st (batches_of pmids))" by (metis image_eqI set_map)
    then have "\<exists>e. run_stages (map ?st (batches_of pmids)) [] = Inl e" by (rule run_stages_failure)
    with h show ?thesis by (simp add: run)
  qed
  show "\<exists>ids. esearch search_get query retmax = Inr ids
             \<and> (\<forall>b' \<in> set (batches_of ids). \<exists>rows. ?st b' = Inr rows)
             \<and> report = rows_of (map ?st (batches_of ids))"
    if h: "run = Inr report"
  proof (cases "esearch search_get query retmax")
    case (Inl e0)
    with h show ?thesis by (simp add: run)
  next
    case (Inr ids)
    with h have "run_stages (map ?st (batches_of ids)) [] = Inr report" by (simp add: run)
    from run_stages_Inr [OF this] Inr show ?thesis by auto
  qed
  show "esearch search_get query retmax = Inl e
          \<or> (\<exists>ids. esearch search_get query retmax = Inr ids
                \<and> (\<exists>b' \<in> set (batches_of ids). ?st b' = Inl e))"
    if h: "run = Inl e"
  proof (cases "esearch search_get query retmax")
    case (Inl e0)
    with h show ?thesis by (simp add: run)
  next
    case (Inr ids)
    with h have "run_stages (map ?st (batches_of ids)) [] = Inl e" by (simp add: run)
    then have "Inl e \<in> set (map ?st (batches_of ids))" by (rule run_stages_Inl)
    then obtain b' where "b' \<in> set (batches_of ids)" "?st b' = Inl e" by auto
    with Inr show ?thesis by blast
  qed
qed

theorem fetch_papers_propagates_witness:
  "fetch_papers (\<lambda>q n. Inr (replicate 401 (ustr ''7'')))
     (\<lambda>ids. if ids = ustr ''7'' then Inl (HTTPError 500) else Inr ids)
     (\<lambda>xml. Inr two_records) lib0 (ustr ''acme'') 1000 False
     = Inl (HTTPError 500)
   \<and> fetch_papers (\<lambda>q n. Inr (replicate 401 (ustr ''7''))) Inr
     (\<lambda>xml. if xml = ustr ''7'' then Inl (XMLSyntaxError ''Document is empty'') else Inr two_records)
     lib0 (ustr ''acme'') 1000 False
     = Inl (XMLSyntaxError ''Document is empty'')
   \<and> fetch_papers (\<lambda>q n. Inl (RequestException ''timeout'')) Inr (\<lambda>xml. Inr two_records)
     lib0 (ustr ''acme'') 1000 False
     = Inl (RequestException ''timeout'')"
proof -
  let ?ids = "replicate 401 (ustr ''7'')"
  let ?big = "replicate 200 (ustr ''7'')"
  let ?s = "\<lambda>q n. (Inr ?ids :: error + str list)"
  let ?f = "\<lambda>ids. if ids = ustr ''7'' then Inl (HTTPError 500) else (Inr ids :: error + str)"
  let ?d = "\<lambda>xml. (Inr two_records :: error + element)"
  let ?d2 = "\<lambda>xml. if xml = ustr ''7'' then Inl (XMLSyntaxError ''Document is empty'')
      else (Inr two_records :: error + element)"
  have b: "batches_of ?ids = [?big, ?big, [ustr ''7'']]" by code_simp
  have ne: "str_join (ustr '','') ?big \<noteq> ustr ''7''" by code_simp
  have one: "str_join (ustr '','') [ustr ''7''] = ustr ''7''" by simp
  have s: "esearch ?s (ustr ''acme'') 1000 = Inr ?ids" by (simp add: esearch_def)
  have ok1: "\<exists>rows. stage ?f ?d lib0 ?big = Inr rows"
    using ne by (simp add: stage_def parse_articles_def parse_root_def articles_loop_rows)
  have bad1: "stage ?f ?d lib0 [ustr ''7''] = Inl (HTTPError 500)"
    by (simp add: stage_def)
  have ok2: "\<exists>rows. stage Inr ?d2 lib0 ?big = Inr rows"
    using ne by (simp add: stage_def parse_articles_def parse_root_def articles_loop_rows)
  have bad2: "stage Inr ?d2 lib0 [ustr ''7''] = Inl (XMLSyntaxError ''Document is empty'')"
    by (simp add: stage_def parse_articles_def)
  have two: "j < 2 \<Longrightarrow> [?big, ?big, [ustr ''7'']] ! j = ?big" for j
    by (cases j) (simp_all add: less_Suc_eq)
  have r1: "fetch_papers ?s ?f ?d lib0 (ustr ''acme'') 1000 False = Inl (HTTPError 500)"
    using fetch_papers_propagates
      [where search_get = ?s and fetch_get = ?f and fromstring = ?d and l = lib0
         and query = "ustr ''acme''" and retmax = 1000 and debug = False
         and e = "HTTPError 500" and pmids = ?ids and k = 2]
      s ok1 bad1 two by (simp add: b)
  have r2: "fetch_papers ?s Inr ?d2 lib0 (ustr ''acme'') 1000 False
      = Inl (XMLSyntaxError ''Document is empty'')"
    using fetch_papers_propagates
      [where search_get = ?s and fetch_get = Inr and fromstring = ?d2 and l = lib0
         and query = "ustr ''acme''" and retmax = 1000 and debug = False
         and e = "XMLSyntaxError ''Document is empty''" and pmids = ?ids and k = 2]
      s ok2 bad2 two by (simp add: b)
  have r3: "fetch_papers (\<lambda>q n. Inl (RequestException ''timeout'')) Inr ?d lib0 (ustr ''acme'') 1000 False
      = Inl (RequestException ''timeout'')"
    using fetch_papers_propagates
      [where search_get = "\<lambda>q n. Inl (RequestException ''timeout'')" and fetch_get = Inr
         and fromstring = ?d and l = lib0 and query = "ustr ''acme''" and retmax = 1000
         and debug = False and e = "RequestException ''timeout''"]
    by (simp add: esearch_def)
  from r1 r2 r3 show ?thesis by simp
qed

end
